theory Spec2Isabelle
  imports Main "HOL-Library.Product_Lexorder" "HOL-Library.AList"
begin

section \<open>Instants, durations and errors\<close>

text \<open>
  A timezone-aware \<open>datetime\<close> is modelled by the instant it denotes, an integer number of
  microseconds since the epoch: Python compares, hashes and subtracts aware datetimes by
  their instant only. Naive datetimes among themselves behave the same way on their
  wall-clock value; comparing a naive with an aware one raises in Python and is outside
  the model. A \<open>timedelta\<close> is an integer number of microseconds.
\<close>

type_synonym datetime = int
type_synonym timedelta = int

definition timedelta_hours :: "int \<Rightarrow> timedelta" where
  "timedelta_hours h = h * 3600000000"

definition timedelta_minutes :: "int \<Rightarrow> timedelta" where
  "timedelta_minutes m = m * 60000000"

text \<open>Every exception the modelled code can raise, named by its type and message.\<close>

datatype error =
    ValueError_end_before_start      \<comment> \<open>\<open>SleepSegment.__post_init__\<close>: the end cannot be before the start\<close>
  | ValueError_invalid_stage         \<comment> \<open>\<open>SleepSegment.__post_init__\<close>: invalid stage\<close>
  | ValueError_empty_session         \<comment> \<open>\<open>SleepSession.from_segments\<close>: no segment is left\<close>
  | ValueError_reversed_range        \<comment> \<open>\<open>iter_health_records\<close>: the end date is before the start date\<close>
  | AttributeError_append            \<comment> \<open>\<open>_parse_attributes\<close>: a \<open>str\<close> has no \<open>append\<close>\<close>
  | TypeError_unhashable             \<comment> \<open>\<open>is_any_of_types\<close>: a \<open>list\<close> looked up in a \<open>set\<close>\<close>
  | TypeError_naive_aware            \<comment> \<open>a naive \<open>datetime\<close> compared with an aware one\<close>

section \<open>Sleep segments (sleep.py)\<close>

definition SLEEP_STAGES :: "(string option \<times> string) list" where
  "SLEEP_STAGES =
    [(Some ''HKCategoryValueSleepAnalysisAwake'', ''Awake''),
     (Some ''HKCategoryValueSleepAnalysisAsleepCore'', ''Core''),
     (Some ''HKCategoryValueSleepAnalysisAsleepDeep'', ''Deep''),
     (Some ''HKCategoryValueSleepAnalysisAsleepREM'', ''REM''),
     (Some ''HKCategoryValueSleepAnalysisInBed'', ''InBed''),
     (Some ''HKCategoryValueSleepAnalysisAsleep'', ''Asleep''),
     (Some ''HKCategoryValueSleepAnalysisAsleepUnspecified'', ''Unspecified''),
     (None, ''Unspecified'')]"

definition SLEEP_STAGES_values :: "string list" where
  "SLEEP_STAGES_values = map snd SLEEP_STAGES"

definition STAGE_PRIORITY :: "(string \<times> int) list" where
  "STAGE_PRIORITY =
    [(''Awake'', 5), (''REM'', 4), (''Deep'', 3), (''Core'', 2), (''Asleep'', 1),
     (''Unspecified'', 0)]"

text \<open>\<open>_STAGE_PRIORITY.get(stage, 0)\<close>\<close>

definition stage_priority :: "string \<Rightarrow> int" where
  "stage_priority st = (case map_of STAGE_PRIORITY st of Some p \<Rightarrow> p | None \<Rightarrow> 0)"

record SleepSegment =
  start_dt :: datetime
  end_dt :: datetime
  stage :: string

text \<open>
  The constructor with \<open>__post_init__\<close>. Both fields are datetimes by their type, so the
  \<open>TypeError\<close> branch has no counterpart.
\<close>

definition mk_SleepSegment :: "datetime \<Rightarrow> datetime \<Rightarrow> string \<Rightarrow> error + SleepSegment" where
  "mk_SleepSegment s e st =
     (if e < s then Inl ValueError_end_before_start
      else if st \<notin> set SLEEP_STAGES_values then Inl ValueError_invalid_stage
      else Inr \<lparr>start_dt = s, end_dt = e, stage = st\<rparr>)"

definition duration :: "SleepSegment \<Rightarrow> timedelta" where
  "duration s = end_dt s - start_dt s"

section \<open>Sleep sessions and the interval normalizer (sleep.py)\<close>

record SleepSession =
  session_start_dt :: datetime
  session_end_dt :: datetime
  segments :: "SleepSegment list"

definition session_duration :: "SleepSession \<Rightarrow> timedelta" where
  "session_duration x = session_end_dt x - session_start_dt x"

definition asleep_duration :: "SleepSession \<Rightarrow> timedelta" where
  "asleep_duration x = sum_list (map duration (filter (\<lambda>s. stage s \<noteq> ''Awake'') (segments x)))"

definition awake_duration :: "SleepSession \<Rightarrow> timedelta" where
  "awake_duration x = sum_list (map duration (filter (\<lambda>s. stage s = ''Awake'') (segments x)))"

definition awakenings :: "SleepSession \<Rightarrow> nat" where
  "awakenings x =
     length (filter (\<lambda>s. stage s = ''Awake'' \<and> duration s \<ge> timedelta_minutes 2) (segments x))"

text \<open>The filter shared by \<open>_normalize\<close> and \<open>build_sleep_sessions\<close>.\<close>

definition kept :: "SleepSegment \<Rightarrow> bool" where
  "kept s = (stage s \<noteq> ''InBed'' \<and> duration s > 0)"

text \<open>
  Python's \<open>max(xs, key=k)\<close> on a non-empty list \<open>x # xs\<close>: the first element whose key is
  maximal.
\<close>

fun max_key :: "('a \<Rightarrow> int) \<Rightarrow> 'a \<Rightarrow> 'a list \<Rightarrow> 'a" where
  "max_key k best [] = best"
| "max_key k best (x # xs) = (if k x > k best then max_key k x xs else max_key k best xs)"

definition covering :: "SleepSegment list \<Rightarrow> datetime \<Rightarrow> datetime \<Rightarrow> SleepSegment list" where
  "covering segs a b = filter (\<lambda>s. start_dt s < b \<and> end_dt s > a) segs"

definition boundaries :: "SleepSegment list \<Rightarrow> datetime list" where
  "boundaries segs = sort (remdups (concat (map (\<lambda>s. [start_dt s, end_dt s]) segs)))"

text \<open>The loop over \<open>zip(boundaries, boundaries[1:])\<close> that fills \<open>result\<close>.\<close>

fun resolve :: "SleepSegment list \<Rightarrow> (datetime \<times> datetime) list \<Rightarrow> error + SleepSegment list" where
  "resolve segs [] = Inr []"
| "resolve segs ((a, b) # ps) =
     (case covering segs a b of
        [] \<Rightarrow> resolve segs ps
      | c # cs \<Rightarrow>
          (case mk_SleepSegment a b (stage (max_key (\<lambda>s. stage_priority (stage s)) c cs)) of
             Inl e \<Rightarrow> Inl e
           | Inr seg \<Rightarrow>
               (case resolve segs ps of
                  Inl e \<Rightarrow> Inl e
                | Inr result \<Rightarrow> Inr (seg # result))))"

text \<open>The loop that merges adjacent same-stage segments; \<open>merged\<close> is never empty.\<close>

fun merge_adjacent :: "SleepSegment list \<Rightarrow> SleepSegment list \<Rightarrow> error + SleepSegment list" where
  "merge_adjacent merged [] = Inr merged"
| "merge_adjacent merged (seg # rest) =
     (let prev = last merged in
      if stage seg = stage prev \<and> start_dt seg = end_dt prev then
        (case mk_SleepSegment (start_dt prev) (end_dt seg) (stage seg) of
           Inl e \<Rightarrow> Inl e
         | Inr m \<Rightarrow> merge_adjacent (butlast merged @ [m]) rest)
      else merge_adjacent (merged @ [seg]) rest)"

definition normalize :: "SleepSegment list \<Rightarrow> error + SleepSegment list" where
  "normalize segs0 =
     (let segs1 = filter kept segs0 in
      if segs1 = [] then Inr []
      else
        let segs = sort_key (\<lambda>s. (start_dt s, end_dt s)) segs1;
            bs = boundaries segs
        in case resolve segs (zip bs (tl bs)) of
             Inl e \<Rightarrow> Inl e
           | Inr [] \<Rightarrow> Inr []
           | Inr (r # rs) \<Rightarrow> merge_adjacent [r] rs)"

definition from_segments :: "SleepSegment list \<Rightarrow> error + SleepSession" where
  "from_segments segs =
     (case normalize segs of
        Inl e \<Rightarrow> Inl e
      | Inr [] \<Rightarrow> Inl ValueError_empty_session
      | Inr (n # ns) \<Rightarrow>
          Inr \<lparr>session_start_dt = start_dt n, session_end_dt = end_dt (last (n # ns)),
               segments = n # ns\<rparr>)"

section \<open>The session grouper (sleep.py)\<close>

text \<open>The \<open>for seg in segs\<close> loop of \<open>build_sleep_sessions\<close> and the final flush.\<close>

fun group_loop ::
  "timedelta \<Rightarrow> SleepSession list \<Rightarrow> SleepSegment list \<Rightarrow> SleepSegment list \<Rightarrow>
   error + SleepSession list" where
  "group_loop gap sessions current [] =
     (if current \<noteq> [] then
        (case from_segments current of
           Inl e \<Rightarrow> Inl e
         | Inr x \<Rightarrow> Inr (sessions @ [x]))
      else Inr sessions)"
| "group_loop gap sessions current (seg # rest) =
     (if current = [] then group_loop gap sessions [seg] rest
      else if start_dt seg - end_dt (last current) > gap then
        (case from_segments current of
           Inl e \<Rightarrow> Inl e
         | Inr x \<Rightarrow> group_loop gap (sessions @ [x]) [seg] rest)
      else group_loop gap sessions (current @ [seg]) rest)"

definition build_sleep_sessions :: "SleepSegment list \<Rightarrow> timedelta \<Rightarrow> error + SleepSession list" where
  "build_sleep_sessions segments0 gap =
     (let segs = filter kept segments0 in
      if segs = [] then Inr [] else group_loop gap [] [] segs)"

section \<open>Python values and the standard library (parser.py)\<close>

text \<open>
  A \<open>datetime\<close> object as the standard library returns it: naive (a wall-clock time in
  microseconds) or aware (a wall-clock time and its UTC offset, both in microseconds).
\<close>

datatype pydatetime = Naive int | Aware int int

text \<open>\<open>dt if dt.tzinfo else dt.replace(tzinfo=timezone.utc)\<close>\<close>

fun ensure_aware :: "pydatetime \<Rightarrow> pydatetime" where
  "ensure_aware (Naive w) = Aware w 0"
| "ensure_aware (Aware w off) = Aware w off"

text \<open>\<open>dt.replace(tzinfo=timezone.utc)\<close>: the wall-clock time read as UTC.\<close>

fun replace_utc :: "pydatetime \<Rightarrow> pydatetime" where
  "replace_utc (Naive w) = Aware w 0"
| "replace_utc (Aware w off) = Aware w 0"

text \<open>
  \<open>a < b\<close> and \<open>a > b\<close> on datetimes: two naive ones compare by wall-clock time, two aware
  ones by the instant they denote, and a naive one with an aware one raises \<open>TypeError\<close>.
\<close>

fun dt_lt :: "pydatetime \<Rightarrow> pydatetime \<Rightarrow> error + bool" where
  "dt_lt (Naive a) (Naive b) = Inr (a < b)"
| "dt_lt (Aware a oa) (Aware b ob) = Inr (a - oa < b - ob)"
| "dt_lt (Naive a) (Aware b ob) = Inl TypeError_naive_aware"
| "dt_lt (Aware a oa) (Naive b) = Inl TypeError_naive_aware"

definition dt_gt :: "pydatetime \<Rightarrow> pydatetime \<Rightarrow> error + bool" where
  "dt_gt a b = dt_lt b a"

text \<open>
  The two parsing functions of the standard library are parameters of the model:
  \<open>datetime.fromisoformat(s)\<close> and \<open>datetime.strptime(s, fmt)\<close>, with \<open>None\<close> for the
  \<open>ValueError\<close> they raise on text they do not accept.
\<close>

record datetime_lib =
  fromisoformat :: "string \<Rightarrow> pydatetime option"
  strptime :: "string \<Rightarrow> string \<Rightarrow> pydatetime option"

text \<open>
  The values found in an attribute dict: \<open>None\<close> (also what \<open>dict.get\<close> returns for a missing
  key), a string, a datetime, or a list of nested attribute dicts. A dict is an association
  list in insertion order with \<open>AList.update\<close> for assignment, as a Python dict keeps it.
\<close>

datatype pyval = PNone | PStr string | PDatetime pydatetime | PList "(string \<times> pyval) list list"

type_synonym pydict = "(string \<times> pyval) list"

definition dict_get :: "pydict \<Rightarrow> string \<Rightarrow> pyval" where
  "dict_get d k = (case map_of d k of Some v \<Rightarrow> v | None \<Rightarrow> PNone)"

definition setdefault :: "string \<Rightarrow> pyval \<Rightarrow> pydict \<Rightarrow> pydict" where
  "setdefault k v d = (case map_of d k of Some _ \<Rightarrow> d | None \<Rightarrow> d @ [(k, v)])"

fun truthy :: "pyval \<Rightarrow> bool" where
  "truthy PNone = False"
| "truthy (PStr s) = (s \<noteq> [])"
| "truthy (PDatetime d) = True"
| "truthy (PList l) = (l \<noteq> [])"

text \<open>Python's \<open>a or b\<close> on values, and on optional datetimes (a datetime is always true).\<close>

definition por :: "pyval \<Rightarrow> pyval \<Rightarrow> pyval" where
  "por a b = (if truthy a then a else b)"

definition oor :: "'a option \<Rightarrow> 'a option \<Rightarrow> 'a option" where
  "oor a b = (case a of Some x \<Rightarrow> Some x | None \<Rightarrow> b)"

text \<open>\<open>str.strip()\<close>, for text in Latin-1.\<close>

definition isspace :: "char \<Rightarrow> bool" where
  "isspace c = ((of_char c :: nat) \<in> {9, 10, 11, 12, 13, 28, 29, 30, 31, 32, 133, 160})"

definition strip :: "string \<Rightarrow> string" where
  "strip s = rev (dropWhile isspace (rev (dropWhile isspace s)))"

section \<open>The timestamp normalizer (parser.py)\<close>

text \<open>
  Steps 1 and 2 return what the library returns, unchanged; step 3 makes a naive result
  aware; step 4 reads the wall-clock time as UTC.
\<close>

fun to_datetime :: "datetime_lib \<Rightarrow> pyval \<Rightarrow> pydatetime option" where
  "to_datetime L (PDatetime d) = Some (ensure_aware d)"
| "to_datetime L (PStr v) =
     (let s = strip v in
      if s = [] then None
      else if last s \<in> {CHR ''Z'', CHR ''z''} then
        (case fromisoformat L (butlast s @ ''+00:00'') of
           Some d \<Rightarrow> Some d
         | None \<Rightarrow> None)
      else
        (case strptime L s ''%Y-%m-%d %H:%M:%S %z'' of
           Some d \<Rightarrow> Some d
         | None \<Rightarrow>
             (case fromisoformat L s of
                Some d \<Rightarrow> Some (ensure_aware d)
              | None \<Rightarrow>
                  (case strptime L s ''%Y-%m-%d %H:%M:%S'' of
                     Some d \<Rightarrow> Some (replace_utc d)
                   | None \<Rightarrow>
                       (case strptime L s ''%Y-%m-%d'' of
                          Some d \<Rightarrow> Some (replace_utc d)
                        | None \<Rightarrow> None)))))"
| "to_datetime L PNone = None"
| "to_datetime L (PList l) = None"

section \<open>The record model (parser.py)\<close>

text \<open>
  An element of the parsed document: its tag, its attributes in document order and its
  child elements. Comments and processing instructions are outside the model.
\<close>

datatype elem = Elem (elem_tag: string) (elem_attrib: "(string \<times> string) list") (elem_children: "elem list")

text \<open>\<open>elem.get(key)\<close> as a Python value.\<close>

definition elem_get :: "elem \<Rightarrow> string \<Rightarrow> pyval" where
  "elem_get e k = (case map_of (elem_attrib e) k of Some v \<Rightarrow> PStr v | None \<Rightarrow> PNone)"

text \<open>\<open>dict(elem.attrib)\<close>\<close>

definition dict_of_attrib :: "(string \<times> string) list \<Rightarrow> pydict" where
  "dict_of_attrib a = foldl (\<lambda>d (k, v). AList.update k (PStr v) d) [] a"

record HealthRecord =
  tag :: pyval
  record_type :: pyval
  record_start_dt :: "pydatetime option"
  record_end_dt :: "pydatetime option"
  attributes :: pydict

text \<open>
  \<open>_parse_attributes\<close>; \<open>parse_children\<close> is its loop over \<open>elem.iterchildren()\<close>, with the
  dict built so far. Appending to an entry that holds a string raises \<open>AttributeError\<close>.
\<close>

fun parse_attributes :: "elem \<Rightarrow> error + pydict"
  and parse_children :: "elem list \<Rightarrow> pydict \<Rightarrow> error + pydict" where
  "parse_attributes (Elem t a cs) = parse_children cs (dict_of_attrib a)"
| "parse_children [] attrs = Inr attrs"
| "parse_children (child # rest) attrs =
     (if elem_tag child = ''MetadataEntry'' then
        (case (elem_get child ''key'', elem_get child ''value'') of
           (PStr key, PStr value) \<Rightarrow>
             if key \<noteq> [] then parse_children rest (AList.update key (PStr value) attrs)
             else parse_children rest attrs
         | _ \<Rightarrow> parse_children rest attrs)
      else
        (case parse_attributes child of
           Inl e \<Rightarrow> Inl e
         | Inr nested0 \<Rightarrow>
             (let nested = setdefault ''_tag'' (PStr (elem_tag child)) nested0 in
              case map_of attrs (elem_tag child) of
                None \<Rightarrow> parse_children rest (attrs @ [(elem_tag child, PList [nested])])
              | Some (PList l) \<Rightarrow>
                  parse_children rest (AList.update (elem_tag child) (PList (l @ [nested])) attrs)
              | Some _ \<Rightarrow> Inl AttributeError_append)))"

definition determine_record_type :: "pyval \<Rightarrow> pydict \<Rightarrow> pyval" where
  "determine_record_type t attrs =
     (let typ = dict_get attrs ''type'' in
      if t = PStr ''Workout'' then por (dict_get attrs ''workoutActivityType'') t
      else if t \<in> {PStr ''Correlation'', PStr ''Audiogram'', PStr ''ClinicalRecord''} then por typ t
      else if t \<in> {PStr ''ActivitySummary'', PStr ''Me'', PStr ''ExportDate''} then t
      else por typ t)"

text \<open>The comparison \<open>end_dt < start_dt\<close> raises if one is naive and the other aware.\<close>

definition derive_time_window ::
  "datetime_lib \<Rightarrow> pydict \<Rightarrow> error + (pydatetime option \<times> pydatetime option)" where
  "derive_time_window L attrs =
     (let s = to_datetime L (dict_get attrs ''startDate'');
          c = to_datetime L (dict_get attrs ''creationDate'');
          e = to_datetime L (dict_get attrs ''endDate'');
          start = oor s (oor c e);
          end = oor e (oor s c)
      in case (start, end) of
           (Some a, Some b) \<Rightarrow>
             (case dt_lt b a of
                Inl err \<Rightarrow> Inl err
              | Inr clamp \<Rightarrow> if clamp then Inr (start, start) else Inr (start, end))
         | _ \<Rightarrow> Inr (start, end))"

definition from_element :: "datetime_lib \<Rightarrow> elem \<Rightarrow> error + HealthRecord" where
  "from_element L e =
     (case parse_attributes e of
        Inl err \<Rightarrow> Inl err
      | Inr attrs0 \<Rightarrow>
          (let t = PStr (elem_tag e);
               attrs1 = AList.update ''_tag'' t attrs0;
               rt = determine_record_type t attrs1;
               attrs2 = AList.update ''_type'' rt attrs1
           in case derive_time_window L attrs2 of
                Inl err \<Rightarrow> Inl err
              | Inr (s, e) \<Rightarrow>
                  Inr \<lparr>tag = t, record_type = rt, record_start_dt = s, record_end_dt = e,
                       attributes = attrs2\<rparr>))"

text \<open>The argument is a dict by its type, so the \<open>TypeError\<close> branch has no counterpart.\<close>

definition from_dict :: "datetime_lib \<Rightarrow> pydict \<Rightarrow> error + HealthRecord" where
  "from_dict L attrs0 =
     (let t = por (dict_get attrs0 ''_tag'') (por (dict_get attrs0 ''tag'') (PStr ''Record''));
          attrs1 = AList.update ''_tag'' t attrs0;
          rt = por (dict_get attrs1 ''_type'') (determine_record_type t attrs1);
          attrs2 = AList.update ''_type'' rt attrs1
      in case derive_time_window L attrs2 of
           Inl err \<Rightarrow> Inl err
         | Inr (s, e) \<Rightarrow>
             Inr \<lparr>tag = t, record_type = rt, record_start_dt = s, record_end_dt = e,
                  attributes = attrs2\<rparr>)"

definition to_dict :: "HealthRecord \<Rightarrow> pydict" where
  "to_dict r = attributes r"

definition intersects_time_window ::
  "HealthRecord \<Rightarrow> pydatetime option \<Rightarrow> pydatetime option \<Rightarrow> error + bool" where
  "intersects_time_window r window_start window_end =
     (if window_start = None \<and> window_end = None then Inr True
      else case (record_start_dt r, record_end_dt r) of
        (Some s, Some e) \<Rightarrow>
          (case (case window_start of Some ws \<Rightarrow> dt_lt e ws | None \<Rightarrow> Inr False) of
             Inl err \<Rightarrow> Inl err
           | Inr before \<Rightarrow>
               if before then Inr False
               else
                 (case (case window_end of Some we \<Rightarrow> dt_gt s we | None \<Rightarrow> Inr False) of
                    Inl err \<Rightarrow> Inl err
                  | Inr after \<Rightarrow> if after then Inr False else Inr True))
      | _ \<Rightarrow> Inr False)"

text \<open>\<open>x in allowed\<close> for a set of strings: a list is not hashable.\<close>

fun py_in :: "pyval \<Rightarrow> string list \<Rightarrow> error + bool" where
  "py_in (PStr s) A = Inr (s \<in> set A)"
| "py_in (PList l) A = Inl TypeError_unhashable"
| "py_in PNone A = Inr False"
| "py_in (PDatetime d) A = Inr False"

definition is_any_of_types :: "HealthRecord \<Rightarrow> string list option \<Rightarrow> error + bool" where
  "is_any_of_types r allowed =
     (case allowed of
        None \<Rightarrow> Inr True
      | Some A \<Rightarrow>
          (case py_in (record_type r) A of
             Inl e \<Rightarrow> Inl e
           | Inr True \<Rightarrow> Inr True
           | Inr False \<Rightarrow> py_in (tag r) A))"

section \<open>The streaming reader (parser.py)\<close>

text \<open>
  \<open>iterparse\<close> delivers an end event for every element, children before parents, and the
  loop handles those whose parent has the root's tag; \<open>_cleanup\<close> then empties the element
  and removes its earlier siblings. \<open>view rt e\<close> is the subtree of \<open>e\<close> as it stands at the
  end event of \<open>e\<close>: below an element with the root's tag only the last child is left,
  emptied. \<open>events rt inside e\<close> lists, in the order of the end events, the elements of the
  subtree of \<open>e\<close> that the loop handles, \<open>inside\<close> telling whether the parent of \<open>e\<close> has the
  root's tag.
\<close>

fun view :: "string \<Rightarrow> elem \<Rightarrow> elem" where
  "view rt (Elem t a cs) =
     Elem t a (if t = rt then (case cs of [] \<Rightarrow> [] | _ \<Rightarrow> [Elem (elem_tag (last cs)) [] []])
               else map (view rt) cs)"

fun events :: "string \<Rightarrow> bool \<Rightarrow> elem \<Rightarrow> elem list" where
  "events rt inside (Elem t a cs) =
     concat (map (events rt (t = rt)) cs) @ (if inside then [view rt (Elem t a cs)] else [])"

text \<open>
  The early type pre-filter and the early time pre-filter: \<open>True\<close> when they discard. The
  second comparison of the time pre-filter is made only if the first does not discard.
\<close>

definition type_prefilter :: "string list option \<Rightarrow> elem \<Rightarrow> bool" where
  "type_prefilter types_set e =
     (case types_set of
        None \<Rightarrow> False
      | Some A \<Rightarrow>
          (case por (elem_get e ''type'') (elem_get e ''workoutActivityType'') of
             PStr elem_type \<Rightarrow>
               elem_type \<noteq> [] \<and> elem_type \<notin> set A \<and> elem_tag e \<notin> set A
           | _ \<Rightarrow> False))"

definition time_prefilter ::
  "datetime_lib \<Rightarrow> pydatetime option \<Rightarrow> pydatetime option \<Rightarrow> elem \<Rightarrow> error + bool" where
  "time_prefilter L start end e =
     (if start \<noteq> None \<or> end \<noteq> None then
        (let elem_start = to_datetime L (elem_get e ''startDate'');
             elem_end = to_datetime L (elem_get e ''endDate'')
         in case (case (start, elem_end) of (Some s, Some ee) \<Rightarrow> dt_lt ee s | _ \<Rightarrow> Inr False) of
              Inl err \<Rightarrow> Inl err
            | Inr before \<Rightarrow>
                if before then Inr True
                else (case (end, elem_start) of (Some en, Some es) \<Rightarrow> dt_gt es en | _ \<Rightarrow> Inr False))
      else Inr False)"

text \<open>
  The generator's loop: the records yielded, and the exception that ended the iteration
  if one was raised.
\<close>

fun records_loop ::
  "datetime_lib \<Rightarrow> string list option \<Rightarrow> pydatetime option \<Rightarrow> pydatetime option \<Rightarrow>
   elem list \<Rightarrow> HealthRecord list \<times> error option" where
  "records_loop L types_set start end [] = ([], None)"
| "records_loop L types_set start end (e # rest) =
     (if type_prefilter types_set e then records_loop L types_set start end rest
      else
        (case time_prefilter L start end e of
           Inl err \<Rightarrow> ([], Some err)
         | Inr discard \<Rightarrow>
             if discard then records_loop L types_set start end rest
             else
               (case from_element L e of
                  Inl err \<Rightarrow> ([], Some err)
                | Inr record \<Rightarrow>
                    (case is_any_of_types record types_set of
                       Inl err \<Rightarrow> ([], Some err)
                     | Inr ok \<Rightarrow>
                         if \<not> ok then records_loop L types_set start end rest
                         else
                           (case intersects_time_window record start end of
                              Inl err \<Rightarrow> ([], Some err)
                            | Inr inside \<Rightarrow>
                                if inside then
                                  (case records_loop L types_set start end rest of
                                     (rs, err) \<Rightarrow> (record # rs, err))
                                else records_loop L types_set start end rest)))))"

text \<open>
  \<open>iter_health_records\<close> on a document given by its root element (opening the file is
  outside the model).
\<close>

definition iter_health_records ::
  "datetime_lib \<Rightarrow> elem \<Rightarrow> string list option \<Rightarrow> pyval \<Rightarrow> pyval \<Rightarrow>
   HealthRecord list \<times> error option" where
  "iter_health_records L root types start end =
     (let start_dt = to_datetime L start;
          end_dt = to_datetime L end
      in case (case (start_dt, end_dt) of (Some s, Some e) \<Rightarrow> dt_lt e s | _ \<Rightarrow> Inr False) of
           Inl err \<Rightarrow> ([], Some err)
         | Inr reversed \<Rightarrow>
             if reversed then ([], Some ValueError_reversed_range)
             else
               (let types_set = (case types of None \<Rightarrow> None
                                 | Some ts \<Rightarrow> if ts = [] then None else Some ts)
                in records_loop L types_set start_dt end_dt (events (elem_tag root) False root)))"

definition parse_health_data ::
  "datetime_lib \<Rightarrow> elem \<Rightarrow> string list option \<Rightarrow> pyval \<Rightarrow> pyval \<Rightarrow> pydict list \<times> error option" where
  "parse_health_data L root types start end =
     (case iter_health_records L root types start end of (rs, err) \<Rightarrow> (map to_dict rs, err))"

section \<open>The standard library's parsers (CPython 3.11)\<close>

text \<open>
  Concrete instances of the two library functions, following CPython 3.11:
  \<open>datetime.fromisoformat\<close> as \<open>Modules/_datetimemodule.c\<close> implements it, on the UTF-8 bytes
  of the text, and \<open>datetime.strptime\<close> as \<open>Lib/_strptime.py\<close> implements it, by a regular
  expression built from the format. Text is Latin-1, as everywhere in this model. A
  \<open>ValueError\<close> of the library is \<open>None\<close>.
\<close>

subsection \<open>Calendar arithmetic\<close>

definition is_leap :: "int \<Rightarrow> bool" where
  "is_leap y = (y mod 4 = 0 \<and> (y mod 100 \<noteq> 0 \<or> y mod 400 = 0))"

definition days_in_month :: "int \<Rightarrow> int \<Rightarrow> int" where
  "days_in_month y m =
     (if m = 2 then (if is_leap y then 29 else 28)
      else if m = 4 \<or> m = 6 \<or> m = 9 \<or> m = 11 then 30 else 31)"

definition days_before_year :: "int \<Rightarrow> int" where
  "days_before_year y = (y - 1) * 365 + (y - 1) div 4 - (y - 1) div 100 + (y - 1) div 400"

definition days_before_month :: "int \<Rightarrow> int \<Rightarrow> int" where
  "days_before_month y m = sum_list (map (\<lambda>k. days_in_month y (int k)) [1 ..< nat m])"

text \<open>The ordinal of a date: 1 for 0001-01-01, and 719163 for 1970-01-01.\<close>

definition ymd_to_ord :: "int \<Rightarrow> int \<Rightarrow> int \<Rightarrow> int" where
  "ymd_to_ord y m d = days_before_year y + days_before_month y m + d"

definition weekday :: "int \<Rightarrow> int \<Rightarrow> int \<Rightarrow> int" where
  "weekday y m d = (ymd_to_ord y m d + 6) mod 7"

definition iso_week1_monday :: "int \<Rightarrow> int" where
  "iso_week1_monday y =
     (let first_day = ymd_to_ord y 1 1;
          first_weekday = (first_day + 6) mod 7;
          week1_monday = first_day - first_weekday
      in if first_weekday > 3 then week1_monday + 7 else week1_monday)"

text \<open>
  The constructor's check of a date, \<open>1 \<le> year \<le> 9999\<close> with the month and the day in
  range, giving the ordinal of the date.
\<close>

definition check_date :: "int \<Rightarrow> int \<Rightarrow> int \<Rightarrow> int option" where
  "check_date y m d =
     (if 1 \<le> y \<and> y \<le> 9999 \<and> 1 \<le> m \<and> m \<le> 12 \<and> 1 \<le> d \<and> d \<le> days_in_month y m
      then Some (ymd_to_ord y m d) else None)"

text \<open>
  \<open>iso_to_ymd\<close> followed by the constructor's check: the ordinal of the day of an ISO week
  date. The date computed is rejected by the constructor when it falls outside the years
  1 to 9999, that is when its ordinal is not between 1 and 3652059.
\<close>

definition iso_to_ymd :: "int \<Rightarrow> int \<Rightarrow> int \<Rightarrow> int option" where
  "iso_to_ymd iso_year iso_week iso_day =
     (if (iso_week \<le> 0 \<or> iso_week \<ge> 53) \<and>
         \<not> (iso_week = 53 \<and>
            (weekday iso_year 1 1 = 3 \<or> (weekday iso_year 1 1 = 2 \<and> is_leap iso_year)))
      then None
      else if iso_day \<le> 0 \<or> iso_day \<ge> 8 then None
      else
        (let ord = iso_week1_monday iso_year + (iso_week - 1) * 7 + iso_day - 1
         in if ord < 1 \<or> ord > 3652059 then None else Some ord))"

text \<open>
  The constructor's check of a time of day, given as its hour, minute and second (those
  not parsed are zero), and the time of day in microseconds.
\<close>

definition check_time :: "int list \<Rightarrow> bool" where
  "check_time vs = (case vs @ [0, 0, 0] of h # m # s # _ \<Rightarrow> h < 24 \<and> m < 60 \<and> s < 60 | _ \<Rightarrow> False)"

definition time_us :: "int list \<Rightarrow> int \<Rightarrow> int" where
  "time_us vs us =
     (case vs @ [0, 0, 0] of h # m # s # _ \<Rightarrow> (h * 3600 + m * 60 + s) * 1000000 + us | _ \<Rightarrow> 0)"

text \<open>Midnight of the day with the given ordinal, in microseconds from 1970-01-01.\<close>

definition day_us :: "int \<Rightarrow> int" where
  "day_us ord = (ord - 719163) * 86400000000"

text \<open>\<open>timezone(offset)\<close> accepts an offset strictly between -24 hours and 24 hours.\<close>

definition check_offset :: "int \<Rightarrow> bool" where
  "check_offset off = (- 86400000000 < off \<and> off < 86400000000)"

subsection \<open>\<open>datetime.fromisoformat\<close>\<close>

text \<open>
  The bytes of the text, and the byte at an index: the buffer ends with a zero byte, which
  the parser reads as the end of the text.
\<close>

definition utf8 :: "string \<Rightarrow> nat list" where
  "utf8 s = concat (map (\<lambda>c. let n = (of_char c :: nat) in
                          if n < 128 then [n] else [192 + n div 64, 128 + n mod 64]) s)"

definition at :: "nat list \<Rightarrow> nat \<Rightarrow> nat" where
  "at bs i = (if i < length bs then bs ! i else 0)"

definition is_digit :: "nat \<Rightarrow> bool" where
  "is_digit b = (48 \<le> b \<and> b \<le> 57)"

text \<open>\<open>parse_digits\<close>: the number written by \<open>n\<close> digits at position \<open>p\<close>.\<close>

fun parse_digits :: "nat list \<Rightarrow> nat \<Rightarrow> nat \<Rightarrow> int \<Rightarrow> int option" where
  "parse_digits bs p 0 acc = Some acc"
| "parse_digits bs p (Suc n) acc =
     (if is_digit (at bs p) then parse_digits bs (Suc p) n (acc * 10 + (int (at bs p) - 48))
      else None)"

text \<open>The position of the first byte from \<open>p\<close> on that is not a digit.\<close>

definition skip_digits :: "nat list \<Rightarrow> nat \<Rightarrow> nat" where
  "skip_digits bs p = p + length (takeWhile is_digit (drop p bs))"

text \<open>
  \<open>_find_isoformat_datetime_separator\<close>: where the date part ends, read off bytes 4 and 5
  (45 is \<open>-\<close>, 87 is \<open>W\<close>). \<open>None\<close> is its result -1, met only on text that
  \<open>parse_isoformat_date\<close> rejects.
\<close>

definition find_isoformat_datetime_separator :: "nat list \<Rightarrow> nat option" where
  "find_isoformat_datetime_separator bs =
     (let len = length bs in
      if len = 7 then Some 7
      else if at bs 4 = 45 then
        (if at bs 5 = 87 then
           (if len < 8 then None
            else if len > 8 \<and> at bs 8 = 45 then
              (if len = 9 then None
               else if len > 10 \<and> is_digit (at bs 10) then Some 8
               else Some 10)
            else Some 8)
         else Some 10)
      else if at bs 4 = 87 then
        (let idx = (if len \<le> 7 then 7 else skip_digits bs 7) in
         if idx < 9 then Some idx
         else if idx mod 2 = 0 then Some 7 else Some 8)
      else Some 8)"

text \<open>
  \<open>parse_isoformat_date\<close> on the first \<open>len\<close> bytes, with the constructor's check: the
  ordinal of the date. Bytes of the date part that follow the date are not looked at.
\<close>

definition parse_isoformat_date :: "nat list \<Rightarrow> nat \<Rightarrow> int option" where
  "parse_isoformat_date bs len =
     (case parse_digits bs 0 4 0 of
        None \<Rightarrow> None
      | Some year \<Rightarrow>
          (let uses_separator = (at bs 4 = 45);
               p = (if uses_separator then 5 else 4)
           in if at bs p = 87 then
                (case parse_digits bs (p + 1) 2 0 of
                   None \<Rightarrow> None
                 | Some iso_week \<Rightarrow>
                     (if p + 3 < len then
                        (if uses_separator \<and> at bs (p + 3) \<noteq> 45 then None
                         else
                           (case parse_digits bs (if uses_separator then p + 4 else p + 3) 1 0 of
                              None \<Rightarrow> None
                            | Some iso_day \<Rightarrow> iso_to_ymd year iso_week iso_day))
                      else iso_to_ymd year iso_week 1))
              else
                (case parse_digits bs p 2 0 of
                   None \<Rightarrow> None
                 | Some month \<Rightarrow>
                     (if uses_separator \<and> at bs (p + 2) \<noteq> 45 then None
                      else
                        (case parse_digits bs (if uses_separator then p + 3 else p + 2) 2 0 of
                           None \<Rightarrow> None
                         | Some day \<Rightarrow> check_date year month day)))))"

text \<open>
  \<open>parse_hh_mm_ss_ff\<close> between the positions \<open>p\<close> and \<open>p_end\<close>: the components read, the
  microseconds, and whether text is left (its result 1). \<open>parse_fraction\<close> is its last
  part, which reads up to six digits of a fraction and skips the digits after them;
  \<open>parse_hh_mm_ss_ff\<close> reads \<open>k\<close> more two-digit components (three at the start, when whether
  the components are separated by \<open>:\<close> is settled), and after the third goes on to the
  fraction. Byte 58 is \<open>:\<close>, 46 is \<open>.\<close>, 44 is \<open>,\<close>.
\<close>

definition parse_fraction :: "nat list \<Rightarrow> nat \<Rightarrow> nat \<Rightarrow> (int list \<times> int \<times> bool) option" where
  "parse_fraction bs p_end p =
     (let to_parse = min 6 (p_end - p) in
      case parse_digits bs p to_parse 0 of
        None \<Rightarrow> None
      | Some v \<Rightarrow> Some ([], v * 10 ^ (6 - to_parse), at bs (skip_digits bs (p + to_parse)) \<noteq> 0))"

fun parse_hh_mm_ss_ff ::
  "nat \<Rightarrow> nat list \<Rightarrow> nat \<Rightarrow> nat \<Rightarrow> bool \<Rightarrow> (int list \<times> int \<times> bool) option" where
  "parse_hh_mm_ss_ff 0 bs p_end p has_separator = parse_fraction bs p_end p"
| "parse_hh_mm_ss_ff (Suc k) bs p_end p has_separator =
     (case parse_digits bs p 2 0 of
        None \<Rightarrow> None
      | Some v \<Rightarrow>
          (let c = at bs (p + 2);
               sep = (if k = 2 then c = 58 else has_separator);
               more = map_option (\<lambda>(vs, us, left). (v # vs, us, left))
           in if p + 3 \<ge> p_end then Some ([v], 0, c \<noteq> 0)
              else if sep \<and> c = 58 then more (parse_hh_mm_ss_ff k bs p_end (p + 3) sep)
              else if c = 46 \<or> c = 44 then more (parse_fraction bs p_end (p + 3))
              else if \<not> sep then more (parse_hh_mm_ss_ff k bs p_end (p + 2) sep)
              else None))"

text \<open>The position of the first \<open>Z\<close>, \<open>+\<close> or \<open>-\<close> (bytes 90, 43, 45), or the length.\<close>

definition tzinfo_pos :: "nat list \<Rightarrow> nat" where
  "tzinfo_pos ts = length (takeWhile (\<lambda>b. b \<noteq> 90 \<and> b \<noteq> 43 \<and> b \<noteq> 45) ts)"

text \<open>
  \<open>parse_isoformat_time\<close> on the bytes after the separator, with the constructor's check
  of the time and \<open>tzinfo_from_isoformat_results\<close>: the time of day in microseconds, and the
  offset in microseconds if the text carries one. An offset of zero seconds is UTC,
  whatever its fraction.
\<close>

definition parse_isoformat_time :: "nat list \<Rightarrow> (int \<times> int option) option" where
  "parse_isoformat_time ts =
     (let n = length ts; tz = tzinfo_pos ts in
      if n = 0 then None
      else
        (case parse_hh_mm_ss_ff 3 ts tz 0 False of
           None \<Rightarrow> None
         | Some (vs, us, left) \<Rightarrow>
             if \<not> check_time vs then None
             else if tz = n then (if left then None else Some (time_us vs us, None))
             else if at ts tz = 90 then
               (if at ts (tz + 1) \<noteq> 0 then None else Some (time_us vs us, Some 0))
             else
               (case parse_hh_mm_ss_ff 3 ts n (tz + 1) False of
                  None \<Rightarrow> None
                | Some (tvs, tus, tleft) \<Rightarrow>
                    if tleft then None
                    else
                      (let tzsign = (if at ts tz = 45 then - 1 else 1);
                           tzoffset = tzsign * (time_us tvs 0 div 1000000);
                           off = (if tzoffset = 0 then 0 else tzoffset * 1000000 + tzsign * tus)
                       in if check_offset off then Some (time_us vs us, Some off) else None))))"

text \<open>
  \<open>datetime.fromisoformat\<close>: the date part, then, if text follows it, one separator
  character of any kind (one or two bytes) and the time part.
\<close>

definition stdlib_fromisoformat :: "string \<Rightarrow> pydatetime option" where
  "stdlib_fromisoformat s =
     (let bs = utf8 s in
      case find_isoformat_datetime_separator bs of
        None \<Rightarrow> None
      | Some separator_location \<Rightarrow>
          (case parse_isoformat_date bs separator_location of
             None \<Rightarrow> None
           | Some ord \<Rightarrow>
               if length bs > separator_location then
                 (let skip = (if at bs separator_location < 128 then 1 else 2) in
                  case parse_isoformat_time (drop (separator_location + skip) bs) of
                    None \<Rightarrow> None
                  | Some (t, None) \<Rightarrow> Some (Naive (day_us ord + t))
                  | Some (t, Some off) \<Rightarrow> Some (Aware (day_us ord + t) off))
               else Some (Naive (day_us ord))))"

subsection \<open>\<open>datetime.strptime\<close>\<close>

text \<open>
  The regular expressions of \<open>_strptime.py\<close>, and a backtracking matcher: \<open>matches r s\<close>
  lists, in the order in which the \<open>re\<close> module tries them, the texts left after a match of
  \<open>r\<close> at the start of \<open>s\<close>. \<open>Spaces\<close> is \<open>\s+\<close>.
\<close>

datatype regex = Lit char | Digit | CharRange char char | OneOf "char list" | Spaces | Empty
  | Seq regex regex | Alt regex regex

definition Opt :: "regex \<Rightarrow> regex" where
  "Opt r = Alt r Empty"

fun seq :: "regex list \<Rightarrow> regex" where
  "seq [] = Empty"
| "seq [r] = r"
| "seq (r # rs) = Seq r (seq rs)"

fun alt :: "regex list \<Rightarrow> regex" where
  "alt [] = Empty"
| "alt [r] = r"
| "alt (r # rs) = Alt r (alt rs)"

definition between :: "char \<Rightarrow> char \<Rightarrow> char \<Rightarrow> bool" where
  "between a b c = ((of_char a :: nat) \<le> of_char c \<and> (of_char c :: nat) \<le> of_char b)"

definition isdigit :: "char \<Rightarrow> bool" where
  "isdigit c = between CHR ''0'' CHR ''9'' c"

fun one_char :: "(char \<Rightarrow> bool) \<Rightarrow> string \<Rightarrow> string list" where
  "one_char P [] = []"
| "one_char P (c # cs) = (if P c then [cs] else [])"

fun matches :: "regex \<Rightarrow> string \<Rightarrow> string list" where
  "matches (Lit c) s = one_char (\<lambda>x. x = c) s"
| "matches Digit s = one_char isdigit s"
| "matches (CharRange a b) s = one_char (between a b) s"
| "matches (OneOf cs) s = one_char (\<lambda>x. x \<in> set cs) s"
| "matches Spaces s = map (\<lambda>k. drop k s) (rev [1 ..< Suc (length (takeWhile isspace s))])"
| "matches Empty s = [s]"
| "matches (Seq a b) s = concat (map (matches b) (matches a s))"
| "matches (Alt a b) s = matches a s @ matches b s"

text \<open>
  The expression of a directive, from the table of \<open>TimeRE\<close>, for the directives the
  formats of \<open>to_datetime\<close> use:
  \<^item> \<open>%d\<close> is \<open>3[0-1]|[1-2]\d|0[1-9]|[1-9]| [1-9]\<close>,
  \<^item> \<open>%H\<close> is \<open>2[0-3]|[0-1]\d|\d\<close>,
  \<^item> \<open>%m\<close> is \<open>1[0-2]|0[1-9]|[1-9]\<close>,
  \<^item> \<open>%M\<close> is \<open>[0-5]\d|\d\<close>,
  \<^item> \<open>%S\<close> is \<open>6[0-1]|[0-5]\d|\d\<close>,
  \<^item> \<open>%Y\<close> is \<open>\d\d\d\d\<close>,
  \<^item> \<open>%z\<close> is \<open>[+-]\d\d:?[0-5]\d(:?[0-5]\d(\.\d{1,6})?)?|(?-i:Z)\<close>.
\<close>

definition directive :: "char \<Rightarrow> regex option" where
  "directive c =
     (if c = CHR ''d'' then
        Some (alt [Seq (Lit CHR ''3'') (CharRange CHR ''0'' CHR ''1''),
                   Seq (CharRange CHR ''1'' CHR ''2'') Digit,
                   Seq (Lit CHR ''0'') (CharRange CHR ''1'' CHR ''9''),
                   CharRange CHR ''1'' CHR ''9'',
                   Seq (Lit CHR '' '') (CharRange CHR ''1'' CHR ''9'')])
      else if c = CHR ''H'' then
        Some (alt [Seq (Lit CHR ''2'') (CharRange CHR ''0'' CHR ''3''),
                   Seq (CharRange CHR ''0'' CHR ''1'') Digit,
                   Digit])
      else if c = CHR ''m'' then
        Some (alt [Seq (Lit CHR ''1'') (CharRange CHR ''0'' CHR ''2''),
                   Seq (Lit CHR ''0'') (CharRange CHR ''1'' CHR ''9''),
                   CharRange CHR ''1'' CHR ''9''])
      else if c = CHR ''M'' then
        Some (alt [Seq (CharRange CHR ''0'' CHR ''5'') Digit, Digit])
      else if c = CHR ''S'' then
        Some (alt [Seq (Lit CHR ''6'') (CharRange CHR ''0'' CHR ''1''),
                   Seq (CharRange CHR ''0'' CHR ''5'') Digit,
                   Digit])
      else if c = CHR ''Y'' then
        Some (seq [Digit, Digit, Digit, Digit])
      else if c = CHR ''z'' then
        Some (Alt (seq [OneOf ''+-'', Digit, Digit, Opt (Lit CHR '':''),
                        CharRange CHR ''0'' CHR ''5'', Digit,
                        Opt (seq [Opt (Lit CHR '':''), CharRange CHR ''0'' CHR ''5'', Digit,
                                  Opt (seq [Lit CHR ''.'', Digit,
                                    Opt (seq [Digit, Opt (seq [Digit, Opt (seq [Digit,
                                      Opt (seq [Digit, Opt Digit])])])])])])])
                   (Lit CHR ''Z''))
      else None)"

text \<open>
  \<open>TimeRE.pattern\<close>: a run of whitespace in the format becomes \<open>\s+\<close>, a directive a named
  group, any other character itself. The formats modelled are those made of the
  directives above, whitespace and characters that are not letters; \<open>None\<close> is a format
  outside the model.
\<close>

datatype item = Group char regex | Plain regex

fun pattern :: "string \<Rightarrow> item list option" where
  "pattern [] = Some []"
| "pattern [c] = (if c = CHR ''%'' then None else Some [Plain (if isspace c then Spaces else Lit c)])"
| "pattern (c # c' # cs) =
     (if c = CHR ''%'' then
        (case directive c' of
           None \<Rightarrow> None
         | Some r \<Rightarrow> map_option ((#) (Group c' r)) (pattern cs))
      else if isspace c then
        (if isspace c' then pattern (c' # cs)
         else map_option ((#) (Plain Spaces)) (pattern (c' # cs)))
      else map_option ((#) (Plain (Lit c))) (pattern (c' # cs)))"

text \<open>
  The matches of a pattern at the start of a text, in the order tried: the text of each
  group, and the text left.
\<close>

fun match_items :: "item list \<Rightarrow> string \<Rightarrow> ((char \<times> string) list \<times> string) list" where
  "match_items [] s = [([], s)]"
| "match_items (Plain r # is) s = concat (map (match_items is) (matches r s))"
| "match_items (Group g r # is) s =
     concat (map (\<lambda>rest. map (\<lambda>(gs, left). ((g, take (length s - length rest) s) # gs, left))
                               (match_items is rest))
                 (matches r s))"

text \<open>\<open>int(s)\<close> for text made of digits and whitespace around them.\<close>

definition py_int :: "string \<Rightarrow> int option" where
  "py_int s = (let t = strip s in
               if t \<noteq> [] \<and> list_all isdigit t
               then Some (foldl (\<lambda>acc c. acc * 10 + (int (of_char c) - 48)) 0 t) else None)"

text \<open>\<open>s[i:j]\<close>\<close>

definition slice :: "nat \<Rightarrow> nat \<Rightarrow> string \<Rightarrow> string" where
  "slice i j s = drop i (take j s)"

text \<open>
  The offset in microseconds from the text of group \<open>z\<close>: the colons are removed, and it
  is an error if the first is there and the second is not (\<open>Inconsistent use of :\<close>) or if a
  slice is not a number.
\<close>

definition gmtoff :: "string \<Rightarrow> int option" where
  "gmtoff z0 =
     (if z0 = ''Z'' then Some 0
      else
        (let z1 = (if slice 3 4 z0 = '':'' then take 3 z0 @ drop 4 z0 else z0);
             inconsistent = (slice 3 4 z0 = '':'' \<and> length z1 > 5 \<and> slice 5 6 z1 \<noteq> '':'');
             z = (if slice 3 4 z0 = '':'' \<and> length z1 > 5 then take 5 z1 @ drop 6 z1 else z1)
         in if inconsistent then None
            else
              (case (py_int (slice 1 3 z), py_int (slice 3 5 z),
                     (if slice 5 7 z = [] then Some 0 else py_int (slice 5 7 z)),
                     py_int (drop 8 z @ replicate (6 - length (drop 8 z)) CHR ''0'')) of
                 (Some hours, Some minutes, Some seconds, Some fraction) \<Rightarrow>
                   (let off = (hours * 3600 + minutes * 60 + seconds) * 1000000 + fraction
                    in Some (if take 1 z = ''-'' then - off else off))
               | _ \<Rightarrow> None)))"

text \<open>The number in a group, or the default of a field the format does not have.\<close>

definition group_int :: "(char \<times> string) list \<Rightarrow> char \<Rightarrow> int \<Rightarrow> int option" where
  "group_int gs g dflt = (case map_of gs g of None \<Rightarrow> Some dflt | Some t \<Rightarrow> py_int t)"

text \<open>
  \<open>datetime.strptime\<close>: the first match of the pattern is taken; it is an error if there
  is none or if it leaves text (\<open>unconverted data remains\<close>); then the date, the time and
  the offset are checked as the constructors check them.
\<close>

definition stdlib_strptime :: "string \<Rightarrow> string \<Rightarrow> pydatetime option" where
  "stdlib_strptime data_string format =
     (case pattern format of
        None \<Rightarrow> None
      | Some items \<Rightarrow>
          (case match_items items data_string of
             [] \<Rightarrow> None
           | (gs, left) # _ \<Rightarrow>
               if left \<noteq> [] then None
               else
                 (case (group_int gs CHR ''Y'' 1900, group_int gs CHR ''m'' 1,
                        group_int gs CHR ''d'' 1, group_int gs CHR ''H'' 0,
                        group_int gs CHR ''M'' 0, group_int gs CHR ''S'' 0) of
                    (Some year, Some month, Some day, Some hour, Some minute, Some second) \<Rightarrow>
                      (case (case map_of gs CHR ''z'' of
                               None \<Rightarrow> Some None
                             | Some z \<Rightarrow> map_option Some (gmtoff z)) of
                         None \<Rightarrow> None
                       | Some tz \<Rightarrow>
                           (case check_date year month day of
                              None \<Rightarrow> None
                            | Some ord \<Rightarrow>
                                if \<not> check_time [hour, minute, second] then None
                                else
                                  (let w = day_us ord + time_us [hour, minute, second] 0
                                   in case tz of
                                        None \<Rightarrow> Some (Naive w)
                                      | Some off \<Rightarrow>
                                          if check_offset off then Some (Aware w off) else None)))
                  | _ \<Rightarrow> None)))"

definition stdlib :: datetime_lib where
  "stdlib = \<lparr>fromisoformat = stdlib_fromisoformat, strptime = stdlib_strptime\<rparr>"

section \<open>Vocabulary of the properties\<close>

text \<open>
  A segment as the constructor leaves it: every \<open>SleepSegment\<close> object of the program
  satisfies this, the record type alone does not.
\<close>

definition valid_segment :: "SleepSegment \<Rightarrow> bool" where
  "valid_segment s = (start_dt s \<le> end_dt s \<and> stage s \<in> set SLEEP_STAGES_values)"

text \<open>Two segments share no instant.\<close>

definition disjoint :: "SleepSegment \<Rightarrow> SleepSegment \<Rightarrow> bool" where
  "disjoint a b = (end_dt a \<le> start_dt b \<or> end_dt b \<le> start_dt a)"

text \<open>
  Segments of positive length, each ending no later than every later one starts: ordered
  in time and pairwise disjoint.
\<close>

definition chain :: "SleepSegment list \<Rightarrow> bool" where
  "chain xs = (sorted_wrt (\<lambda>a b. end_dt a \<le> start_dt b) xs \<and> (\<forall>s\<in>set xs. start_dt s < end_dt s))"

text \<open>The same for a list of intervals given as pairs.\<close>

definition pchain :: "(datetime \<times> datetime) list \<Rightarrow> bool" where
  "pchain ps = (sorted_wrt (\<lambda>p q. snd p \<le> fst q) ps \<and> (\<forall>p\<in>set ps. fst p < snd p))"

text \<open>No two consecutive segments share a stage and touch.\<close>

fun no_adjacent_same :: "SleepSegment list \<Rightarrow> bool" where
  "no_adjacent_same (x # y # rest) =
     (\<not> (stage y = stage x \<and> start_dt y = end_dt x) \<and> no_adjacent_same (y # rest))"
| "no_adjacent_same _ = True"

text \<open>Every segment ends exactly where the next one starts.\<close>

fun gap_free :: "SleepSegment list \<Rightarrow> bool" where
  "gap_free (x # y # rest) = (end_dt x = start_dt y \<and> gap_free (y # rest))"
| "gap_free _ = True"

text \<open>
  The invariant of a session: a non-empty list of segments of positive length, ordered
  and pairwise disjoint, all inside \<open>[session_start_dt, session_end_dt]\<close>, none of stage
  InBed, every stage enumerated, the session starting with its first segment and ending
  with its last one.
\<close>

definition session_ok :: "SleepSession \<Rightarrow> bool" where
  "session_ok x =
     (segments x \<noteq> [] \<and>
      sorted_wrt (\<lambda>a b. end_dt a \<le> start_dt b) (segments x) \<and>
      (\<forall>s\<in>set (segments x).
         start_dt s < end_dt s \<and> session_start_dt x \<le> start_dt s \<and> end_dt s \<le> session_end_dt x \<and>
         stage s \<noteq> ''InBed'' \<and> stage s \<in> set SLEEP_STAGES_values) \<and>
      session_start_dt x = start_dt (hd (segments x)) \<and>
      session_end_dt x = end_dt (last (segments x)))"

text \<open>Results of a sequence of calls, up to the first one that raises.\<close>

fun collect :: "(error + 'a) list \<Rightarrow> error + 'a list" where
  "collect [] = Inr []"
| "collect (r # rs) =
     (case r of
        Inl e \<Rightarrow> Inl e
      | Inr v \<Rightarrow> (case collect rs of Inl e \<Rightarrow> Inl e | Inr vs \<Rightarrow> Inr (v # vs)))"

definition attach :: "'a list \<Rightarrow> 'a list list \<Rightarrow> 'a list list" where
  "attach pre gs = (case gs of [] \<Rightarrow> [pre] | g # gs' \<Rightarrow> (pre @ g) # gs')"

text \<open>
  The groups the loop of \<open>build_sleep_sessions\<close> forms, without the sessions built from
  them: going through the segments in the order given, it closes the current group exactly
  between two consecutive segments \<open>x\<close>, \<open>y\<close> with \<open>start y - end x > gap\<close>, where \<open>x\<close> is
  \<open>current[-1]\<close>, the segment added last. Lemma \<open>group_loop_refines\<close> ties it to the loop.
\<close>

fun loop_groups :: "timedelta \<Rightarrow> SleepSegment list \<Rightarrow> SleepSegment list list" where
  "loop_groups gap [] = []"
| "loop_groups gap [x] = [[x]]"
| "loop_groups gap (x # y # rest) =
     (if start_dt y - end_dt x > gap then [x] # loop_groups gap (y # rest)
      else attach [x] (loop_groups gap (y # rest)))"

text \<open>
  The grouping in the words of the specification: a new group starts whenever the next
  segment's start minus the current group's latest end, the greatest end among the
  segments of the group, exceeds the gap; the final group is flushed.
\<close>

definition latest_end :: "SleepSegment list \<Rightarrow> datetime" where
  "latest_end current = Max (end_dt ` set current)"

fun spec_groups_from :: "timedelta \<Rightarrow> SleepSegment list \<Rightarrow> SleepSegment list \<Rightarrow> SleepSegment list list" where
  "spec_groups_from gap current [] = [current]"
| "spec_groups_from gap current (seg # rest) =
     (if start_dt seg - latest_end current > gap then current # spec_groups_from gap [seg] rest
      else spec_groups_from gap (current @ [seg]) rest)"

definition spec_groups :: "timedelta \<Rightarrow> SleepSegment list \<Rightarrow> SleepSegment list list" where
  "spec_groups gap segs =
     (case segs of [] \<Rightarrow> [] | seg # rest \<Rightarrow> spec_groups_from gap [seg] rest)"

text \<open>Inside a group no step exceeds the gap; between two groups the step does.\<close>

fun within_gap :: "timedelta \<Rightarrow> SleepSegment list \<Rightarrow> bool" where
  "within_gap gap (x # y # rest) = (start_dt y - end_dt x \<le> gap \<and> within_gap gap (y # rest))"
| "within_gap gap _ = True"

fun separated :: "timedelta \<Rightarrow> SleepSegment list list \<Rightarrow> bool" where
  "separated gap (g # h # rest) =
     (start_dt (hd h) - end_dt (last g) > gap \<and> separated gap (h # rest))"
| "separated gap _ = True"

text \<open>
  An instant inside a segment; and a segment whose stage is, at each of its instants, the
  stage of a segment of the list containing that instant, of the greatest priority among
  those containing it.
\<close>

definition covers :: "SleepSegment \<Rightarrow> datetime \<Rightarrow> bool" where
  "covers c t = (start_dt c \<le> t \<and> t < end_dt c)"

definition well_resolved :: "SleepSegment list \<Rightarrow> SleepSegment \<Rightarrow> bool" where
  "well_resolved segs x =
     (\<forall>t. covers x t \<longrightarrow>
        (\<exists>w\<in>set segs. covers w t \<and> stage x = stage w) \<and>
        (\<forall>c\<in>set segs. covers c t \<longrightarrow> stage_priority (stage c) \<le> stage_priority (stage x)))"

text \<open>Element names are not empty, anywhere in the document.\<close>

fun wf_elem :: "elem \<Rightarrow> bool" where
  "wf_elem (Elem t a cs) = (t \<noteq> [] \<and> (\<forall>c\<in>set cs. wf_elem c))"

text \<open>A datetime with a zone, and the instant it denotes, in microseconds of UTC.\<close>

definition aware :: "pydatetime \<Rightarrow> bool" where
  "aware d = (case d of Aware w off \<Rightarrow> True | Naive w \<Rightarrow> False)"

fun instant :: "pydatetime \<Rightarrow> int option" where
  "instant (Aware w off) = Some (w - off)"
| "instant (Naive w) = None"

text \<open>The first result that is present.\<close>

fun first_some :: "'a option list \<Rightarrow> 'a option" where
  "first_some [] = None"
| "first_some (None # xs) = first_some xs"
| "first_some (Some x # xs) = Some x"

text \<open>
  The reader in the words of claim C1: a Record is built from every top-level child of the
  root, and only the full type filter (\<open>is_any_of_types\<close>) and the full time-window filter
  (\<open>intersects_time_window\<close>) are applied, with no pre-filter.
\<close>

fun full_filter_loop ::
  "datetime_lib \<Rightarrow> string list option \<Rightarrow> pydatetime option \<Rightarrow> pydatetime option \<Rightarrow>
   elem list \<Rightarrow> HealthRecord list \<times> error option" where
  "full_filter_loop L types_set start end [] = ([], None)"
| "full_filter_loop L types_set start end (e # rest) =
     (case from_element L e of
        Inl err \<Rightarrow> ([], Some err)
      | Inr record \<Rightarrow>
          (case is_any_of_types record types_set of
             Inl err \<Rightarrow> ([], Some err)
           | Inr ok \<Rightarrow>
               if \<not> ok then full_filter_loop L types_set start end rest
               else
                 (case intersects_time_window record start end of
                    Inl err \<Rightarrow> ([], Some err)
                  | Inr inside \<Rightarrow>
                      if inside then
                        (case full_filter_loop L types_set start end rest of
                           (rs, err) \<Rightarrow> (record # rs, err))
                      else full_filter_loop L types_set start end rest)))"

definition spec_iter_health_records ::
  "datetime_lib \<Rightarrow> elem \<Rightarrow> string list option \<Rightarrow> pyval \<Rightarrow> pyval \<Rightarrow>
   HealthRecord list \<times> error option" where
  "spec_iter_health_records L root types start end =
     (let start_dt = to_datetime L start;
          end_dt = to_datetime L end
      in case (case (start_dt, end_dt) of (Some s, Some e) \<Rightarrow> dt_lt e s | _ \<Rightarrow> Inr False) of
           Inl err \<Rightarrow> ([], Some err)
         | Inr reversed \<Rightarrow>
             if reversed then ([], Some ValueError_reversed_range)
             else
               (let types_set = (case types of None \<Rightarrow> None
                                 | Some ts \<Rightarrow> if ts = [] then None else Some ts)
                in full_filter_loop L types_set start_dt end_dt (elem_children root)))"

text \<open>Some element of the subtree carries the given tag.\<close>

fun mentions :: "string \<Rightarrow> elem \<Rightarrow> bool" where
  "mentions rt (Elem t a cs) = (t = rt \<or> (\<exists>c\<in>set cs. mentions rt c))"

section \<open>Properties of segment construction\<close>

lemma SLEEP_STAGES_values_set:
  "set SLEEP_STAGES_values =
     {''Awake'', ''REM'', ''Deep'', ''Core'', ''Asleep'', ''Unspecified'', ''InBed''}"
  by (auto simp: SLEEP_STAGES_values_def SLEEP_STAGES_def)

text \<open>
  Claim C3, as the code has it. Constructing a SleepSegment raises exactly when the end
  instant precedes the start instant or the stage is outside the enumerated set
  \<open>{Awake, REM, Deep, Core, Asleep, Unspecified, InBed}\<close>; in every other case, which
  includes \<open>end = start\<close>, it succeeds and stores the three arguments unchanged.
\<close>

theorem SleepSegment_construction:
  "(e < s \<longrightarrow> mk_SleepSegment s e st = Inl ValueError_end_before_start) \<and>
   (s \<le> e \<and> st \<notin> {''Awake'', ''REM'', ''Deep'', ''Core'', ''Asleep'', ''Unspecified'', ''InBed''}
      \<longrightarrow> mk_SleepSegment s e st = Inl ValueError_invalid_stage) \<and>
   (s \<le> e \<and> st \<in> {''Awake'', ''REM'', ''Deep'', ''Core'', ''Asleep'', ''Unspecified'', ''InBed''}
      \<longrightarrow> mk_SleepSegment s e st = Inr \<lparr>start_dt = s, end_dt = e, stage = st\<rparr>)"
  unfolding mk_SleepSegment_def SLEEP_STAGES_values_set by auto

theorem SleepSegment_construction_witness:
  "mk_SleepSegment 5 3 ''Core'' = Inl ValueError_end_before_start \<and>
   mk_SleepSegment 3 5 ''Unknown'' = Inl ValueError_invalid_stage \<and>
   mk_SleepSegment 3 5 ''Core'' = Inr \<lparr>start_dt = 3, end_dt = 5, stage = ''Core''\<rparr>"
  using SleepSegment_construction [where s = 5 and e = 3 and st = "''Core''"]
        SleepSegment_construction [where s = 3 and e = 5 and st = "''Unknown''"]
        SleepSegment_construction [where s = 3 and e = 5 and st = "''Core''"]
  by simp

text \<open>
  Claim C3 as stated fails: a segment whose end equals its start, with an enumerated
  stage, is constructed without any error.
\<close>

theorem SleepSegment_zero_length_counterexample:
  "mk_SleepSegment 7 7 ''Core'' = Inr \<lparr>start_dt = 7, end_dt = 7, stage = ''Core''\<rparr>"
  by (simp add: mk_SleepSegment_def SLEEP_STAGES_values_def SLEEP_STAGES_def)

section \<open>Properties of the sleep pipeline\<close>

lemma mk_SleepSegment_Inr:
  "mk_SleepSegment s e st = Inr x \<Longrightarrow>
     x = \<lparr>start_dt = s, end_dt = e, stage = st\<rparr> \<and> s \<le> e \<and> st \<in> set SLEEP_STAGES_values"
  by (auto simp: mk_SleepSegment_def split: if_splits)


lemma mk_SleepSegment_ok:
  "s \<le> e \<Longrightarrow> st \<in> set SLEEP_STAGES_values \<Longrightarrow>
     mk_SleepSegment s e st = Inr \<lparr>start_dt = s, end_dt = e, stage = st\<rparr>"
  by (simp add: mk_SleepSegment_def)

lemma max_key_mem: "max_key k b xs \<in> set (b # xs)"
  by (induction xs arbitrary: b) (auto split: if_splits)

lemma max_key_ge_best: "k b \<le> k (max_key k b xs)"
proof (induction xs arbitrary: b)
  case Nil
  then show ?case by simp
next
  case (Cons x xs)
  show ?case
  proof (cases "k x > k b")
    case True
    then show ?thesis using Cons.IH [of x] by simp
  next
    case False
    then show ?thesis using Cons.IH [of b] by simp
  qed
qed

lemma max_key_max: "y \<in> set (b # xs) \<Longrightarrow> k y \<le> k (max_key k b xs)"
proof (induction xs arbitrary: b)
  case Nil
  then show ?case by simp
next
  case (Cons x xs)
  show ?case
  proof (cases "k x > k b")
    case True
    have "y = b \<or> y \<in> set (x # xs)" using Cons.prems by auto
    then show ?thesis
    proof
      assume "y = b"
      then have "k y \<le> k x" using True by simp
      also have "\<dots> \<le> k (max_key k x xs)" by (rule max_key_ge_best)
      finally show ?thesis using True by simp
    next
      assume "y \<in> set (x # xs)"
      then show ?thesis using Cons.IH [of x] True by simp
    qed
  next
    case False
    have "y = x \<or> y \<in> set (b # xs)" using Cons.prems by auto
    then show ?thesis
    proof
      assume "y = x"
      then have "k y \<le> k b" using False by simp
      also have "\<dots> \<le> k (max_key k b xs)" by (rule max_key_ge_best)
      finally show ?thesis using False by simp
    next
      assume "y \<in> set (b # xs)"
      then show ?thesis using Cons.IH [of b] False by simp
    qed
  qed
qed

lemma boundaries_strict: "sorted_wrt (<) (boundaries segs)"
  by (simp add: boundaries_def strict_sorted_iff)

lemma set_boundaries: "set (boundaries segs) = (\<Union>s\<in>set segs. {start_dt s, end_dt s})"
  by (auto simp: boundaries_def)

lemma zip_tl_pchain_aux:
  "sorted_wrt (<) (b # bs) \<Longrightarrow> pchain (zip (b # bs) bs) \<and> (\<forall>p\<in>set (zip (b # bs) bs). b \<le> fst p)"
proof (induction bs arbitrary: b)
  case Nil
  then show ?case by (simp add: pchain_def)
next
  case (Cons c bs)
  then have IH: "pchain (zip (c # bs) bs)" "\<forall>p\<in>set (zip (c # bs) bs). c \<le> fst p"
    by auto
  have bc: "b < c" using Cons.prems by simp
  show ?case using IH bc by (auto simp: pchain_def)
qed

lemma zip_tl_pchain: "sorted_wrt (<) bs \<Longrightarrow> pchain (zip bs (tl bs))"
proof (cases bs)
  case Nil
  then show ?thesis by (simp add: pchain_def)
next
  case (Cons b bs')
  assume "sorted_wrt (<) bs"
  then show ?thesis using zip_tl_pchain_aux [of b bs'] Cons by simp
qed

lemma resolve_intervals:
  "resolve segs ps = Inr r \<Longrightarrow>
     map (\<lambda>s. (start_dt s, end_dt s)) r = filter (\<lambda>(a, b). covering segs a b \<noteq> []) ps"
proof (induction ps arbitrary: r)
  case Nil
  then show ?case by simp
next
  case (Cons p ps)
  obtain a b where p: "p = (a, b)" by (cases p)
  show ?case
  proof (cases "covering segs a b")
    case Nil
    then show ?thesis using Cons p by simp
  next
    case (Cons c cs)
    with Cons.prems p obtain seg r' where
      seg: "mk_SleepSegment a b (stage (max_key (\<lambda>s. stage_priority (stage s)) c cs)) = Inr seg"
      and r': "resolve segs ps = Inr r'" and r: "r = seg # r'"
      by (auto split: sum.splits)
    from mk_SleepSegment_Inr [OF seg] Cons.IH [OF r'] r Cons p show ?thesis
      by simp
  qed
qed

lemma resolve_winner:
  "resolve segs ps = Inr r \<Longrightarrow> x \<in> set r \<Longrightarrow>
     \<exists>c cs. covering segs (start_dt x) (end_dt x) = c # cs \<and>
       stage x = stage (max_key (\<lambda>s. stage_priority (stage s)) c cs) \<and>
       stage x \<in> set SLEEP_STAGES_values"
proof (induction ps arbitrary: r)
  case Nil
  then show ?case by simp
next
  case (Cons p ps)
  obtain a b where p: "p = (a, b)" by (cases p)
  show ?case
  proof (cases "covering segs a b")
    case Nil
    then show ?thesis using Cons p by simp
  next
    case (Cons c cs)
    with Cons.prems p obtain seg r' where
      seg: "mk_SleepSegment a b (stage (max_key (\<lambda>s. stage_priority (stage s)) c cs)) = Inr seg"
      and r': "resolve segs ps = Inr r'" and r: "r = seg # r'"
      by (auto split: sum.splits)
    from Cons.prems(2) r have "x = seg \<or> x \<in> set r'" by auto
    then show ?thesis
    proof
      assume "x = seg"
      then show ?thesis using mk_SleepSegment_Inr [OF seg] Cons by simp
    next
      assume "x \<in> set r'"
      then show ?thesis using Cons.IH [OF r'] by simp
    qed
  qed
qed

lemma chain_of_pchain:
  "pchain (map (\<lambda>s. (start_dt s, end_dt s)) r) \<Longrightarrow> chain r"
  by (auto simp: pchain_def chain_def sorted_wrt_map)

lemma pchain_filter: "pchain ps \<Longrightarrow> pchain (filter P ps)"
  by (auto simp: pchain_def sorted_wrt_filter)

lemma resolve_chain:
  assumes "resolve segs ps = Inr r" and "pchain ps"
  shows "chain r"
proof -
  have "pchain (map (\<lambda>s. (start_dt s, end_dt s)) r)"
    using resolve_intervals [OF assms(1)] pchain_filter [OF assms(2)] by simp
  then show ?thesis by (rule chain_of_pchain)
qed

lemma chain_snoc_merge:
  assumes "chain (ms @ [prev] @ seg # rest)" and "start_dt seg = end_dt prev"
  shows "chain ((ms @ [\<lparr>start_dt = start_dt prev, end_dt = end_dt seg, stage = st\<rparr>]) @ rest)"
  using assms by (auto simp: chain_def sorted_wrt_append)

lemma merge_adjacent_inv:
  "merge_adjacent merged rest = Inr out \<Longrightarrow> merged \<noteq> [] \<Longrightarrow> chain (merged @ rest) \<Longrightarrow>
     chain out \<and> out \<noteq> [] \<and> start_dt (hd out) = start_dt (hd merged) \<and>
     end_dt (last out) = end_dt (last (merged @ rest)) \<and>
     stage ` set out \<subseteq> stage ` set (merged @ rest)"
proof (induction rest arbitrary: merged)
  case Nil
  then show ?case by simp
next
  case (Cons seg rest)
  obtain ms prev where merged: "merged = ms @ [prev]"
    using Cons.prems(2) by (cases merged rule: rev_cases) auto
  show ?case
  proof (cases "stage seg = stage prev \<and> start_dt seg = end_dt prev")
    case True
    let ?m = "\<lparr>start_dt = start_dt prev, end_dt = end_dt seg, stage = stage seg\<rparr>"
    from Cons.prems(1) merged True obtain m where
      m: "mk_SleepSegment (start_dt prev) (end_dt seg) (stage seg) = Inr m"
      and out: "merge_adjacent (ms @ [m]) rest = Inr out"
      by (auto split: sum.splits)
    have m_eq: "m = ?m" using mk_SleepSegment_Inr [OF m] by simp
    have ch: "chain ((ms @ [m]) @ rest)"
      unfolding m_eq using chain_snoc_merge [of ms prev seg rest "stage seg"] Cons.prems(3) merged True
      by simp
    have IH: "chain out \<and> out \<noteq> [] \<and> start_dt (hd out) = start_dt (hd (ms @ [m])) \<and>
      end_dt (last out) = end_dt (last ((ms @ [m]) @ rest)) \<and>
      stage ` set out \<subseteq> stage ` set ((ms @ [m]) @ rest)"
      using Cons.IH [OF out _ ch] by simp
    have hd_eq: "start_dt (hd (ms @ [m])) = start_dt (hd merged)"
      unfolding merged m_eq by (cases ms) simp_all
    have last_eq: "end_dt (last ((ms @ [m]) @ rest)) = end_dt (last (merged @ seg # rest))"
      unfolding merged m_eq by (cases rest) simp_all
    have st: "stage ` set ((ms @ [m]) @ rest) \<subseteq> stage ` set (merged @ seg # rest)"
      unfolding merged m_eq by auto
    have "stage ` set out \<subseteq> stage ` set (merged @ seg # rest)"
      using IH st by (meson order_trans)
    moreover have "start_dt (hd out) = start_dt (hd merged)" using IH hd_eq by simp
    moreover have "end_dt (last out) = end_dt (last (merged @ seg # rest))"
      using IH last_eq by simp
    ultimately show ?thesis using IH by blast
  next
    case False
    from Cons.prems(1) merged False have out: "merge_adjacent (merged @ [seg]) rest = Inr out"
      by auto
    have ch: "chain ((merged @ [seg]) @ rest)" using Cons.prems(3) by simp
    have IH: "chain out \<and> out \<noteq> [] \<and> start_dt (hd out) = start_dt (hd (merged @ [seg])) \<and>
      end_dt (last out) = end_dt (last ((merged @ [seg]) @ rest)) \<and>
      stage ` set out \<subseteq> stage ` set ((merged @ [seg]) @ rest)"
      using Cons.IH [OF out _ ch] by simp
    have "start_dt (hd (merged @ [seg])) = start_dt (hd merged)"
      using Cons.prems(2) by (cases merged) simp_all
    then show ?thesis using IH by simp
  qed
qed







lemma chain_Cons: "chain (x # xs) \<longleftrightarrow>
  start_dt x < end_dt x \<and> (\<forall>y\<in>set xs. end_dt x \<le> start_dt y) \<and> chain xs"
  by (auto simp: chain_def)

lemma chain_append: "chain (xs @ ys) \<longleftrightarrow>
  chain xs \<and> chain ys \<and> (\<forall>x\<in>set xs. \<forall>y\<in>set ys. end_dt x \<le> start_dt y)"
  by (auto simp: chain_def sorted_wrt_append)

lemma chain_lower_bound:
  "chain (x # xs) \<Longrightarrow> z \<in> set (boundaries xs) \<Longrightarrow> end_dt x \<le> z"
  by (fastforce simp: chain_Cons set_boundaries chain_def)

lemma boundaries_Nil: "boundaries [] = []"
  by (simp add: boundaries_def)

lemma boundaries_Cons:
  assumes "chain (x # xs)"
  shows "boundaries (x # xs) =
    start_dt x # (if end_dt x \<in> set (boundaries xs) then boundaries xs
                  else end_dt x # boundaries xs)"
proof -
  let ?L = "concat (map (\<lambda>s. [start_dt s, end_dt s]) xs)"
  have setL: "set ?L = set (boundaries xs)" by (simp add: boundaries_def)
  have lb: "\<forall>z\<in>set ?L. end_dt x \<le> z"
    using chain_lower_bound [OF assms] setL by blast
  have lt: "start_dt x < end_dt x" using assms by (simp add: chain_Cons)
  have notin: "start_dt x \<notin> set (end_dt x # ?L)" using lb lt by auto
  show ?thesis
  proof (cases "end_dt x \<in> set ?L")
    case True
    have "boundaries (x # xs) = sort (start_dt x # remdups ?L)"
      using True notin by (simp add: boundaries_def)
    also have "\<dots> = insort (start_dt x) (sort (remdups ?L))" by simp
    also have "\<dots> = start_dt x # sort (remdups ?L)"
      using lb lt by (intro insort_is_Cons) auto
    finally show ?thesis using True setL by (simp add: boundaries_def)
  next
    case False
    have "boundaries (x # xs) = sort (start_dt x # end_dt x # remdups ?L)"
      using False notin by (simp add: boundaries_def)
    also have "\<dots> = insort (start_dt x) (insort (end_dt x) (sort (remdups ?L)))" by simp
    also have "insort (end_dt x) (sort (remdups ?L)) = end_dt x # sort (remdups ?L)"
      using lb by (intro insort_is_Cons) auto
    also have "insort (start_dt x) (end_dt x # sort (remdups ?L)) =
        start_dt x # end_dt x # sort (remdups ?L)"
      using lb lt by (intro insort_is_Cons) auto
    finally show ?thesis using False setL by (simp add: boundaries_def)
  qed
qed

lemma boundaries_hd:
  "chain (y # ys) \<Longrightarrow> \<exists>t. boundaries (y # ys) = start_dt y # t"
  by (simp add: boundaries_Cons)

lemma intervals_Cons:
  assumes "chain (x # xs)"
  shows "zip (boundaries (x # xs)) (tl (boundaries (x # xs))) =
    (start_dt x, end_dt x) #
      (case xs of [] \<Rightarrow> []
       | y # ys \<Rightarrow> (if end_dt x = start_dt y then [] else [(end_dt x, start_dt y)]) @
                   zip (boundaries xs) (tl (boundaries xs)))"
proof (cases xs)
  case Nil
  then show ?thesis using boundaries_Cons [OF assms] by (simp add: boundaries_Nil)
next
  case (Cons y ys)
  have ch: "chain (y # ys)" using assms Cons by (simp add: chain_Cons)
  obtain t where t: "boundaries xs = start_dt y # t"
    using boundaries_hd [OF ch] Cons by auto
  have le: "end_dt x \<le> start_dt y" using assms Cons by (simp add: chain_Cons)
  have strict: "sorted_wrt (<) (start_dt y # t)" using boundaries_strict [of xs] t by simp
  show ?thesis
  proof (cases "end_dt x = start_dt y")
    case True
    then have "end_dt x \<in> set (boundaries xs)" using t by simp
    then show ?thesis using boundaries_Cons [OF assms] t True Cons by simp
  next
    case False
    have "end_dt x \<notin> set (boundaries xs)"
    proof
      assume "end_dt x \<in> set (boundaries xs)"
      then have "start_dt y \<le> end_dt x" using strict t by auto
      then show False using le False by simp
    qed
    then show ?thesis using boundaries_Cons [OF assms] t False Cons by simp
  qed
qed

lemma covering_self:
  assumes "chain (pre @ x # post)"
  shows "covering (pre @ x # post) (start_dt x) (end_dt x) = [x]"
proof -
  have pre: "\<forall>s\<in>set pre. end_dt s \<le> start_dt x"
    and post: "\<forall>s\<in>set post. end_dt x \<le> start_dt s"
    and x: "start_dt x < end_dt x"
    using assms by (auto simp: chain_append chain_Cons)
  have "filter (\<lambda>s. start_dt s < end_dt x \<and> end_dt s > start_dt x) pre = []"
    using pre by (auto simp: filter_empty_conv)
  moreover have "filter (\<lambda>s. start_dt s < end_dt x \<and> end_dt s > start_dt x) post = []"
    using post by (auto simp: filter_empty_conv)
  ultimately show ?thesis using x by (simp add: covering_def)
qed

lemma covering_gap:
  assumes "chain (pre @ x # y # post)"
  shows "covering (pre @ x # y # post) (end_dt x) (start_dt y) = []"
proof -
  have "\<forall>s\<in>set (pre @ [x]). end_dt s \<le> end_dt x"
    using assms by (fastforce simp: chain_append chain_Cons)
  moreover have "\<forall>s\<in>set (y # post). start_dt y \<le> start_dt s"
    using assms by (fastforce simp: chain_append chain_Cons)
  ultimately show ?thesis by (auto simp: covering_def filter_empty_conv)
qed

lemma resolve_chain_id:
  "chain (pre @ cur) \<Longrightarrow> \<forall>s\<in>set cur. stage s \<in> set SLEEP_STAGES_values \<Longrightarrow>
   resolve (pre @ cur) (zip (boundaries cur) (tl (boundaries cur))) = Inr cur"
proof (induction cur arbitrary: pre)
  case Nil
  then show ?case by (simp add: boundaries_Nil)
next
  case (Cons x xs)
  have chx: "chain (x # xs)" using Cons.prems(1) by (simp add: chain_append)
  have le: "start_dt x \<le> end_dt x" using chx by (simp add: chain_Cons)
  have st: "stage x \<in> set SLEEP_STAGES_values" using Cons.prems(2) by simp
  have self: "covering (pre @ x # xs) (start_dt x) (end_dt x) = [x]"
    by (rule covering_self [OF Cons.prems(1)])
  have mk: "mk_SleepSegment (start_dt x) (end_dt x) (stage x) = Inr x"
    using mk_SleepSegment_ok [OF le st] by simp
  have IH: "resolve (pre @ x # xs) (zip (boundaries xs) (tl (boundaries xs))) = Inr xs"
    using Cons.IH [of "pre @ [x]"] Cons.prems by simp
  show ?case
  proof (cases xs)
    case Nil
    then show ?thesis using intervals_Cons [OF chx] self mk by simp
  next
    case (Cons y ys)
    have gap: "covering (pre @ x # xs) (end_dt x) (start_dt y) = []"
      using covering_gap [of pre x y ys] Cons.prems(1) Cons by simp
    show ?thesis using intervals_Cons [OF chx] self mk IH gap Cons by simp
  qed
qed

lemma no_adjacent_same_snoc:
  "no_adjacent_same ((ms @ [p]) @ s # rest) \<Longrightarrow>
     \<not> (stage s = stage p \<and> start_dt s = end_dt p)"
  by (induction ms rule: no_adjacent_same.induct) auto

lemma merge_adjacent_id:
  "merged \<noteq> [] \<Longrightarrow> no_adjacent_same (merged @ rest) \<Longrightarrow>
   merge_adjacent merged rest = Inr (merged @ rest)"
proof (induction rest arbitrary: merged)
  case Nil
  then show ?case by simp
next
  case (Cons seg rest)
  obtain ms prev where merged: "merged = ms @ [prev]"
    using Cons.prems(1) by (cases merged rule: rev_cases) auto
  have "\<not> (stage seg = stage prev \<and> start_dt seg = end_dt prev)"
    using no_adjacent_same_snoc [of ms prev seg rest] Cons.prems(2) merged by simp
  then have "merge_adjacent merged (seg # rest) = merge_adjacent (merged @ [seg]) rest"
    using merged by auto
  also have "\<dots> = Inr ((merged @ [seg]) @ rest)"
    using Cons.prems by (intro Cons.IH) auto
  finally show ?case by simp
qed

lemma chain_sorted_key:
  "chain xs \<Longrightarrow> sorted (map (\<lambda>s. (start_dt s, end_dt s)) xs)"
proof (induction xs)
  case Nil
  then show ?case by simp
next
  case (Cons x xs)
  then show ?case by (fastforce simp: chain_Cons chain_def)
qed

lemma normalize_idem:
  assumes ch: "chain segs"
    and st: "\<forall>s\<in>set segs. stage s \<in> set SLEEP_STAGES_values \<and> stage s \<noteq> ''InBed''"
    and na: "no_adjacent_same segs"
  shows "normalize segs = Inr segs"
proof (cases segs)
  case Nil
  then show ?thesis by (simp add: normalize_def)
next
  case (Cons x xs)
  have k: "filter kept segs = segs"
    using ch st by (auto simp: kept_def duration_def chain_def filter_id_conv)
  have s: "sort_key (\<lambda>s. (start_dt s, end_dt s)) segs = segs"
    by (rule sort_key_id_if_sorted [OF chain_sorted_key [OF ch]])
  have r: "resolve segs (zip (boundaries segs) (tl (boundaries segs))) = Inr segs"
    using resolve_chain_id [of "[]" segs] ch st by simp
  have m: "merge_adjacent [x] xs = Inr (x # xs)"
    using merge_adjacent_id [of "[x]" xs] na Cons by simp
  show ?thesis using k s r m Cons by (simp add: normalize_def)
qed


lemma resolve_stage_from:
  assumes "resolve segs ps = Inr r" and "x \<in> set r"
  shows "stage x \<in> stage ` set segs \<and> stage x \<in> set SLEEP_STAGES_values"
proof -
  obtain c cs where cov: "covering segs (start_dt x) (end_dt x) = c # cs"
    and w: "stage x = stage (max_key (\<lambda>s. stage_priority (stage s)) c cs)"
    and v: "stage x \<in> set SLEEP_STAGES_values"
    using resolve_winner [OF assms] by blast
  have "max_key (\<lambda>s. stage_priority (stage s)) c cs \<in> set (covering segs (start_dt x) (end_dt x))"
    using max_key_mem [of "\<lambda>s. stage_priority (stage s)" c cs] cov by simp
  then have "max_key (\<lambda>s. stage_priority (stage s)) c cs \<in> set segs"
    by (simp add: covering_def)
  then show ?thesis using w v by auto
qed

text \<open>What \<open>_normalize\<close> guarantees about any list it returns.\<close>

lemma normalize_inv:
  assumes "normalize segs0 = Inr out"
  shows "chain out \<and> (\<forall>x\<in>set out. stage x \<in> set SLEEP_STAGES_values \<and> stage x \<noteq> ''InBed'')"
proof (cases "filter kept segs0 = []")
  case True
  then show ?thesis using assms by (auto simp: normalize_def chain_def)
next
  case False
  let ?segs = "sort_key (\<lambda>s. (start_dt s, end_dt s)) (filter kept segs0)"
  let ?bs = "boundaries ?segs"
  from assms False obtain result where
    res: "resolve ?segs (zip ?bs (tl ?bs)) = Inr result"
    and out: "(case result of [] \<Rightarrow> Inr [] | r # rs \<Rightarrow> merge_adjacent [r] rs) = Inr out"
    by (auto simp: normalize_def Let_def split: sum.splits)
  have ch: "chain result"
    by (rule resolve_chain [OF res zip_tl_pchain [OF boundaries_strict]])
  have stg: "\<forall>x\<in>set result. stage x \<in> set SLEEP_STAGES_values \<and> stage x \<noteq> ''InBed''"
  proof
    fix x assume "x \<in> set result"
    from resolve_stage_from [OF res this]
    show "stage x \<in> set SLEEP_STAGES_values \<and> stage x \<noteq> ''InBed''"
      by (auto simp: kept_def)
  qed
  show ?thesis
  proof (cases result)
    case Nil
    then show ?thesis using out by (auto simp: chain_def)
  next
    case (Cons r rs)
    then have m: "merge_adjacent [r] rs = Inr out" using out by simp
    have "chain out \<and> stage ` set out \<subseteq> stage ` set ([r] @ rs)"
      using merge_adjacent_inv [OF m] ch Cons by simp
    then show ?thesis using stg Cons by auto
  qed
qed




lemma chain_bounds:
  assumes "chain xs" and "s \<in> set xs"
  shows "start_dt (hd xs) \<le> start_dt s \<and> end_dt s \<le> end_dt (last xs)"
proof -
  obtain pre post where xs: "xs = pre @ s # post" using assms(2) by (meson split_list)
  have a: "\<forall>p\<in>set pre. end_dt p \<le> start_dt s" "\<forall>q\<in>set post. end_dt s \<le> start_dt q"
    using assms(1) xs by (auto simp: chain_append chain_Cons)
  have pos: "\<forall>p\<in>set pre. start_dt p < end_dt p" "\<forall>q\<in>set post. start_dt q < end_dt q"
    using assms(1) xs by (auto simp: chain_def)
  have "start_dt (hd xs) \<le> start_dt s"
  proof (cases pre)
    case Nil then show ?thesis using xs by simp
  next
    case (Cons p ps)
    then have "hd xs = p" "p \<in> set pre" using xs by auto
    then show ?thesis using a(1) pos(1) by fastforce
  qed
  moreover have "end_dt s \<le> end_dt (last xs)"
  proof (cases post rule: rev_cases)
    case Nil then show ?thesis using xs by simp
  next
    case (snoc qs q)
    then have "last xs = q" "q \<in> set post" using xs by auto
    then show ?thesis using a(2) pos(2) by fastforce
  qed
  ultimately show ?thesis by simp
qed

lemma from_segments_ok:
  assumes "from_segments segs = Inr x"
  shows "session_ok x"
proof -
  from assms obtain n ns where n: "normalize segs = Inr (n # ns)"
    and x: "x = \<lparr>session_start_dt = start_dt n, session_end_dt = end_dt (last (n # ns)),
                 segments = n # ns\<rparr>"
    by (auto simp: from_segments_def split: sum.splits list.splits)
  have inv: "chain (n # ns)"
    "\<forall>s\<in>set (n # ns). stage s \<in> set SLEEP_STAGES_values \<and> stage s \<noteq> ''InBed''"
    using normalize_inv [OF n] by auto
  have b: "\<forall>s\<in>set (n # ns). start_dt n \<le> start_dt s \<and> end_dt s \<le> end_dt (last (n # ns))"
    using chain_bounds [OF inv(1)] by auto
  show ?thesis
    unfolding session_ok_def x using inv b by (simp add: chain_def del: last.simps)
qed



lemma loop_groups_nonempty: "loop_groups gap (x # xs) \<noteq> []"
  by (induction gap "x # xs" arbitrary: x xs rule: loop_groups.induct)
     (auto simp: attach_def split: list.splits)

lemma attach_attach: "gs \<noteq> [] \<Longrightarrow> attach pre (attach [x] gs) = attach (pre @ [x]) gs"
  by (cases gs) (auto simp: attach_def)

lemma attach_Nil: "gs \<noteq> [] \<Longrightarrow> attach [] gs = gs"
  by (cases gs) (auto simp: attach_def)

lemma group_loop_refines:
  "group_loop gap sessions (pre @ [l]) segs =
     (case collect (map from_segments (attach pre (loop_groups gap (l # segs)))) of
        Inl e \<Rightarrow> Inl e
      | Inr xs \<Rightarrow> Inr (sessions @ xs))"
proof (induction segs arbitrary: sessions pre l)
  case Nil
  show ?case by (simp add: attach_def split: sum.splits)
next
  case (Cons seg rest)
  have IH0: "\<And>ss. group_loop gap ss [seg] rest =
      (case collect (map from_segments (loop_groups gap (seg # rest))) of
         Inl e \<Rightarrow> Inl e | Inr xs \<Rightarrow> Inr (ss @ xs))"
    using Cons.IH [of _ "[]" seg] by (simp add: attach_Nil [OF loop_groups_nonempty])
  show ?case
  proof (cases "start_dt seg - end_dt l > gap")
    case True
    then show ?thesis
      by (simp add: IH0 attach_def split: sum.splits)
  next
    case False
    have "group_loop gap sessions (pre @ [l]) (seg # rest) =
      group_loop gap sessions ((pre @ [l]) @ [seg]) rest"
      using False by simp
    also have "\<dots> = (case collect (map from_segments (attach (pre @ [l]) (loop_groups gap (seg # rest)))) of
        Inl e \<Rightarrow> Inl e | Inr xs \<Rightarrow> Inr (sessions @ xs))"
      by (rule Cons.IH)
    finally show ?thesis using False
      by (simp add: attach_attach [OF loop_groups_nonempty])
  qed
qed

lemma build_sleep_sessions_groups:
  "build_sleep_sessions segs gap =
     collect (map from_segments (loop_groups gap (filter kept segs)))"
proof (cases "filter kept segs")
  case Nil
  then show ?thesis by (simp add: build_sleep_sessions_def)
next
  case (Cons s rest)
  have "build_sleep_sessions segs gap = group_loop gap [] [s] rest"
    using Cons by (simp add: build_sleep_sessions_def)
  also have "\<dots> = (case collect (map from_segments (attach [] (loop_groups gap (s # rest)))) of
        Inl e \<Rightarrow> Inl e | Inr xs \<Rightarrow> Inr ([] @ xs))"
    using group_loop_refines [of gap "[]" "[]" s rest] by simp
  finally show ?thesis using Cons
    by (simp add: attach_Nil [OF loop_groups_nonempty] split: sum.splits)
qed

lemma loop_groups_hd: "\<exists>gs t. loop_groups gap (x # xs) = (x # t) # gs"
  by (induction gap "x # xs" arbitrary: x xs rule: loop_groups.induct)
     (auto simp: attach_def split: list.splits)

lemma loop_groups_partition:
  "concat (loop_groups gap xs) = xs \<and> [] \<notin> set (loop_groups gap xs) \<and>
   (\<forall>g\<in>set (loop_groups gap xs). within_gap gap g) \<and> separated gap (loop_groups gap xs)"
proof (induction gap xs rule: loop_groups.induct)
  case (1 gap)
  then show ?case by simp
next
  case (2 gap x)
  then show ?case by simp
next
  case (3 gap x y rest)
  obtain t gs where sg: "loop_groups gap (y # rest) = (y # t) # gs"
    using loop_groups_hd [of gap y rest] by blast
  show ?case
  proof (cases "start_dt y - end_dt x > gap")
    case True
    then show ?thesis using 3 sg by simp
  next
    case False
    have sep: "separated gap ((x # y # t) # gs) = separated gap ((y # t) # gs)"
      by (cases gs) (simp_all)
    show ?thesis using 3 sg False sep by (simp add: attach_def)
  qed
qed

lemma collect_Inr:
  "collect (map f gs) = Inr out \<Longrightarrow> list_all2 (\<lambda>g x. f g = Inr x) gs out"
proof (induction gs arbitrary: out)
  case Nil
  then show ?case by simp
next
  case (Cons g gs)
  then show ?case by (auto split: sum.splits)
qed




lemma build_sleep_sessions_from:
  assumes "build_sleep_sessions segs gap = Inr out" and "x \<in> set out"
  shows "\<exists>g. from_segments g = Inr x"
proof -
  have "list_all2 (\<lambda>g x. from_segments g = Inr x) (loop_groups gap (filter kept segs)) out"
    using assms(1) collect_Inr unfolding build_sleep_sessions_groups by blast
  then show ?thesis using assms(2) by (auto simp: list_all2_conv_all_nth in_set_conv_nth)
qed



lemma sum_list_filter_split:
  "sum_list (map f (filter P xs)) + sum_list (map f (filter (\<lambda>x. \<not> P x) xs)) =
   (sum_list (map f xs) :: int)"
  by (induction xs) auto

lemma chain_sum_le:
  "chain xs \<Longrightarrow> xs \<noteq> [] \<Longrightarrow>
     sum_list (map duration xs) \<le> end_dt (last xs) - start_dt (hd xs)"
proof (induction xs)
  case Nil
  then show ?case by simp
next
  case (Cons x xs)
  show ?case
  proof (cases xs)
    case Nil
    then show ?thesis by (simp add: duration_def)
  next
    case (Cons y ys)
    have "chain xs" "end_dt x \<le> start_dt (hd xs)"
      using Cons.prems(1) Cons by (auto simp: chain_Cons)
    then show ?thesis using Cons.IH Cons by (simp add: duration_def)
  qed
qed

lemma session_ok_durations:
  assumes "session_ok x"
  shows "asleep_duration x + awake_duration x \<le> session_duration x"
proof -
  have ch: "chain (segments x)" and ne: "segments x \<noteq> []"
    using assms by (auto simp: session_ok_def chain_def)
  have "asleep_duration x + awake_duration x = sum_list (map duration (segments x))"
    unfolding asleep_duration_def awake_duration_def
    using sum_list_filter_split [of duration "\<lambda>s. stage s = ''Awake''" "segments x"]
    by simp
  also have "\<dots> \<le> end_dt (last (segments x)) - start_dt (hd (segments x))"
    by (rule chain_sum_le [OF ch ne])
  finally show ?thesis using assms by (simp add: session_ok_def session_duration_def)
qed

lemmas sleep_eval =
  normalize_def from_segments_def build_sleep_sessions_def kept_def duration_def boundaries_def
  covering_def mk_SleepSegment_def SLEEP_STAGES_values_def SLEEP_STAGES_def stage_priority_def
  STAGE_PRIORITY_def timedelta_hours_def timedelta_minutes_def

text \<open>
  Claim C2, as the code has it. Every SleepSession produced by \<open>SleepSession.from_segments\<close>
  or by the session grouper has a non-empty list of segments, ordered in time and pairwise
  disjoint, each of positive length and inside \<open>[start_instant, end_instant]\<close>; none is an
  InBed segment and every stage is enumerated; the session starts where its first segment
  starts and ends where its last segment ends. Nothing is said about gaps between
  consecutive segments.
\<close>

theorem produced_sessions_invariant:
  "(from_segments segs = Inr x \<longrightarrow> session_ok x) \<and>
   (build_sleep_sessions segs gap = Inr out \<longrightarrow> (\<forall>y\<in>set out. session_ok y))"
proof (intro conjI impI ballI)
  assume "from_segments segs = Inr x"
  then show "session_ok x" by (rule from_segments_ok)
next
  fix y assume "build_sleep_sessions segs gap = Inr out" and "y \<in> set out"
  then obtain g where "from_segments g = Inr y" using build_sleep_sessions_from by blast
  then show "session_ok y" by (rule from_segments_ok)
qed

text \<open>
  Claim C2 as stated fails: Core on \<open>[0:00, 1:00)\<close> and REM on \<open>[1:30, 2:00)\<close> make one
  session, from \<open>from_segments\<close> and from the grouper with a two-hour gap alike, and its two
  segments leave \<open>[1:00, 1:30)\<close> uncovered.
\<close>

theorem produced_sessions_gap_counterexample:
  "from_segments [\<lparr>start_dt = 0, end_dt = 3600000000, stage = ''Core''\<rparr>,
                  \<lparr>start_dt = 5400000000, end_dt = 7200000000, stage = ''REM''\<rparr>] =
     Inr \<lparr>session_start_dt = 0, session_end_dt = 7200000000,
          segments = [\<lparr>start_dt = 0, end_dt = 3600000000, stage = ''Core''\<rparr>,
                      \<lparr>start_dt = 5400000000, end_dt = 7200000000, stage = ''REM''\<rparr>]\<rparr> \<and>
   build_sleep_sessions [\<lparr>start_dt = 0, end_dt = 3600000000, stage = ''Core''\<rparr>,
                  \<lparr>start_dt = 5400000000, end_dt = 7200000000, stage = ''REM''\<rparr>] (timedelta_hours 2) =
     Inr [\<lparr>session_start_dt = 0, session_end_dt = 7200000000,
          segments = [\<lparr>start_dt = 0, end_dt = 3600000000, stage = ''Core''\<rparr>,
                      \<lparr>start_dt = 5400000000, end_dt = 7200000000, stage = ''REM''\<rparr>]\<rparr>] \<and>
   \<not> gap_free [\<lparr>start_dt = 0, end_dt = 3600000000, stage = ''Core''\<rparr>,
                      \<lparr>start_dt = 5400000000, end_dt = 7200000000, stage = ''REM''\<rparr>]"
  by (simp add: sleep_eval)

theorem produced_sessions_invariant_witness:
  "from_segments [\<lparr>start_dt = 0, end_dt = 7200, stage = ''Core''\<rparr>,
                  \<lparr>start_dt = 1800, end_dt = 5400, stage = ''Awake''\<rparr>] =
     Inr \<lparr>session_start_dt = 0, session_end_dt = 7200,
          segments = [\<lparr>start_dt = 0, end_dt = 1800, stage = ''Core''\<rparr>,
                      \<lparr>start_dt = 1800, end_dt = 5400, stage = ''Awake''\<rparr>,
                      \<lparr>start_dt = 5400, end_dt = 7200, stage = ''Core''\<rparr>]\<rparr> \<and>
   session_ok \<lparr>session_start_dt = 0, session_end_dt = 7200,
          segments = [\<lparr>start_dt = 0, end_dt = 1800, stage = ''Core''\<rparr>,
                      \<lparr>start_dt = 1800, end_dt = 5400, stage = ''Awake''\<rparr>,
                      \<lparr>start_dt = 5400, end_dt = 7200, stage = ''Core''\<rparr>]\<rparr> \<and>
   build_sleep_sessions [\<lparr>start_dt = 0, end_dt = 7200, stage = ''Core''\<rparr>,
                  \<lparr>start_dt = 1800, end_dt = 5400, stage = ''Awake''\<rparr>] 0 =
     Inr [\<lparr>session_start_dt = 0, session_end_dt = 7200,
          segments = [\<lparr>start_dt = 0, end_dt = 1800, stage = ''Core''\<rparr>,
                      \<lparr>start_dt = 1800, end_dt = 5400, stage = ''Awake''\<rparr>,
                      \<lparr>start_dt = 5400, end_dt = 7200, stage = ''Core''\<rparr>]\<rparr>]"
proof -
  let ?in = "[\<lparr>start_dt = 0, end_dt = 7200, stage = ''Core''\<rparr>,
              \<lparr>start_dt = 1800, end_dt = 5400, stage = ''Awake''\<rparr>]"
  let ?x = "\<lparr>session_start_dt = 0, session_end_dt = 7200,
          segments = [\<lparr>start_dt = 0, end_dt = 1800, stage = ''Core''\<rparr>,
                      \<lparr>start_dt = 1800, end_dt = 5400, stage = ''Awake''\<rparr>,
                      \<lparr>start_dt = 5400, end_dt = 7200, stage = ''Core''\<rparr>]\<rparr>"
  have f: "from_segments ?in = Inr ?x" by (simp add: sleep_eval)
  have b: "build_sleep_sessions ?in 0 = Inr [?x]" by (simp add: sleep_eval)
  show ?thesis
    using produced_sessions_invariant [of ?in ?x 0 "[?x]"] f b by simp
qed

text \<open>
  Claim C9. For every session produced by \<open>from_segments\<close> or by the grouper, the asleep
  duration (the sum over the segments that are not Awake) plus the awake duration (the sum
  over the Awake segments) is at most the session's duration, its end minus its start.
\<close>

theorem session_durations_bounded:
  "(from_segments segs = Inr x \<longrightarrow>
      asleep_duration x + awake_duration x \<le> session_duration x) \<and>
   (build_sleep_sessions segs gap = Inr out \<longrightarrow>
      (\<forall>y\<in>set out. asleep_duration y + awake_duration y \<le> session_duration y))"
proof (intro conjI impI ballI)
  assume "from_segments segs = Inr x"
  then have "session_ok x" by (rule from_segments_ok)
  then show "asleep_duration x + awake_duration x \<le> session_duration x"
    by (rule session_ok_durations)
next
  fix y assume "build_sleep_sessions segs gap = Inr out" and "y \<in> set out"
  then obtain g where "from_segments g = Inr y" using build_sleep_sessions_from by blast
  then have "session_ok y" by (rule from_segments_ok)
  then show "asleep_duration y + awake_duration y \<le> session_duration y"
    by (rule session_ok_durations)
qed

theorem session_durations_bounded_witness:
  "from_segments [\<lparr>start_dt = 0, end_dt = 3600, stage = ''Core''\<rparr>,
                  \<lparr>start_dt = 3600, end_dt = 3900, stage = ''Awake''\<rparr>,
                  \<lparr>start_dt = 5400, end_dt = 7200, stage = ''REM''\<rparr>] =
     Inr \<lparr>session_start_dt = 0, session_end_dt = 7200,
          segments = [\<lparr>start_dt = 0, end_dt = 3600, stage = ''Core''\<rparr>,
                  \<lparr>start_dt = 3600, end_dt = 3900, stage = ''Awake''\<rparr>,
                  \<lparr>start_dt = 5400, end_dt = 7200, stage = ''REM''\<rparr>]\<rparr> \<and>
   build_sleep_sessions [\<lparr>start_dt = 0, end_dt = 3600, stage = ''Core''\<rparr>,
                  \<lparr>start_dt = 3600, end_dt = 3900, stage = ''Awake''\<rparr>,
                  \<lparr>start_dt = 5400, end_dt = 7200, stage = ''REM''\<rparr>] 1500 =
     Inr [\<lparr>session_start_dt = 0, session_end_dt = 7200,
          segments = [\<lparr>start_dt = 0, end_dt = 3600, stage = ''Core''\<rparr>,
                  \<lparr>start_dt = 3600, end_dt = 3900, stage = ''Awake''\<rparr>,
                  \<lparr>start_dt = 5400, end_dt = 7200, stage = ''REM''\<rparr>]\<rparr>] \<and>
   asleep_duration \<lparr>session_start_dt = 0, session_end_dt = 7200,
          segments = [\<lparr>start_dt = 0, end_dt = 3600, stage = ''Core''\<rparr>,
                  \<lparr>start_dt = 3600, end_dt = 3900, stage = ''Awake''\<rparr>,
                  \<lparr>start_dt = 5400, end_dt = 7200, stage = ''REM''\<rparr>]\<rparr> = 5400 \<and>
   awake_duration \<lparr>session_start_dt = 0, session_end_dt = 7200,
          segments = [\<lparr>start_dt = 0, end_dt = 3600, stage = ''Core''\<rparr>,
                  \<lparr>start_dt = 3600, end_dt = 3900, stage = ''Awake''\<rparr>,
                  \<lparr>start_dt = 5400, end_dt = 7200, stage = ''REM''\<rparr>]\<rparr> = 300 \<and>
   asleep_duration \<lparr>session_start_dt = 0, session_end_dt = 7200,
          segments = [\<lparr>start_dt = 0, end_dt = 3600, stage = ''Core''\<rparr>,
                  \<lparr>start_dt = 3600, end_dt = 3900, stage = ''Awake''\<rparr>,
                  \<lparr>start_dt = 5400, end_dt = 7200, stage = ''REM''\<rparr>]\<rparr> +
   awake_duration \<lparr>session_start_dt = 0, session_end_dt = 7200,
          segments = [\<lparr>start_dt = 0, end_dt = 3600, stage = ''Core''\<rparr>,
                  \<lparr>start_dt = 3600, end_dt = 3900, stage = ''Awake''\<rparr>,
                  \<lparr>start_dt = 5400, end_dt = 7200, stage = ''REM''\<rparr>]\<rparr>
     \<le> session_duration \<lparr>session_start_dt = 0, session_end_dt = 7200,
          segments = [\<lparr>start_dt = 0, end_dt = 3600, stage = ''Core''\<rparr>,
                  \<lparr>start_dt = 3600, end_dt = 3900, stage = ''Awake''\<rparr>,
                  \<lparr>start_dt = 5400, end_dt = 7200, stage = ''REM''\<rparr>]\<rparr>"
proof -
  let ?in = "[\<lparr>start_dt = 0, end_dt = 3600, stage = ''Core''\<rparr>,
                  \<lparr>start_dt = 3600, end_dt = 3900, stage = ''Awake''\<rparr>,
                  \<lparr>start_dt = 5400, end_dt = 7200, stage = ''REM''\<rparr>]"
  let ?x = "\<lparr>session_start_dt = 0, session_end_dt = 7200, segments = ?in\<rparr>"
  have f: "from_segments ?in = Inr ?x" by (simp add: sleep_eval)
  have b: "build_sleep_sessions ?in 1500 = Inr [?x]" by (simp add: sleep_eval)
  have a: "asleep_duration ?x = 5400" "awake_duration ?x = 300"
    by (simp_all add: asleep_duration_def awake_duration_def duration_def)
  show ?thesis
    using session_durations_bounded [of ?in ?x 1500 "[?x]"] f b a by simp
qed



lemma chain_of_sorted_disjoint:
  assumes "sorted (map start_dt segs)" and "sorted_wrt disjoint segs"
    and "\<forall>s\<in>set segs. start_dt s < end_dt s"
  shows "chain segs"
  using assms
proof (induction segs)
  case Nil
  then show ?case by (simp add: chain_def)
next
  case (Cons x xs)
  have "\<forall>y\<in>set xs. end_dt x \<le> start_dt y"
  proof
    fix y assume y: "y \<in> set xs"
    have "start_dt x \<le> start_dt y" using Cons.prems(1) y by simp
    moreover have "disjoint x y" using Cons.prems(2) y by simp
    moreover have "start_dt y < end_dt y" using Cons.prems(3) y by simp
    ultimately show "end_dt x \<le> start_dt y" by (auto simp: disjoint_def)
  qed
  then show ?case using Cons by (simp add: chain_Cons)
qed

text \<open>
  Claim C6. A list of segments that is ordered by start, pairwise disjoint, free of InBed
  and of zero-duration segments, and in which no two consecutive segments share a stage and
  touch, is returned unchanged by the normalizer.
\<close>

theorem normalize_idempotent:
  assumes "sorted (map start_dt segs)" and "sorted_wrt disjoint segs"
    and "\<forall>s\<in>set segs. valid_segment s \<and> stage s \<noteq> ''InBed'' \<and> duration s \<noteq> 0"
    and "no_adjacent_same segs"
  shows "normalize segs = Inr segs"
proof -
  have pos: "\<forall>s\<in>set segs. start_dt s < end_dt s"
    using assms(3) by (fastforce simp: valid_segment_def duration_def)
  have ch: "chain segs" by (rule chain_of_sorted_disjoint [OF assms(1,2) pos])
  have st: "\<forall>s\<in>set segs. stage s \<in> set SLEEP_STAGES_values \<and> stage s \<noteq> ''InBed''"
    using assms(3) by (simp add: valid_segment_def)
  show ?thesis by (rule normalize_idem [OF ch st assms(4)])
qed

theorem normalize_idempotent_witness:
  "normalize [\<lparr>start_dt = 0, end_dt = 1800, stage = ''Core''\<rparr>,
              \<lparr>start_dt = 1800, end_dt = 5400, stage = ''Awake''\<rparr>,
              \<lparr>start_dt = 5400, end_dt = 7200, stage = ''Core''\<rparr>,
              \<lparr>start_dt = 9000, end_dt = 9900, stage = ''Core''\<rparr>] =
     Inr [\<lparr>start_dt = 0, end_dt = 1800, stage = ''Core''\<rparr>,
          \<lparr>start_dt = 1800, end_dt = 5400, stage = ''Awake''\<rparr>,
          \<lparr>start_dt = 5400, end_dt = 7200, stage = ''Core''\<rparr>,
          \<lparr>start_dt = 9000, end_dt = 9900, stage = ''Core''\<rparr>]"
  by (rule normalize_idempotent)
     (simp_all add: disjoint_def valid_segment_def duration_def SLEEP_STAGES_values_def
        SLEEP_STAGES_def)

section \<open>Grouping and overlap resolution\<close>

lemma from_segments_single:
  assumes "valid_segment s" and "kept s"
  shows "from_segments [s] =
    Inr \<lparr>session_start_dt = start_dt s, session_end_dt = end_dt s, segments = [s]\<rparr>"
proof -
  have "chain [s]" using assms(2) by (simp add: chain_def kept_def duration_def)
  moreover have "\<forall>x\<in>set [s]. stage x \<in> set SLEEP_STAGES_values \<and> stage x \<noteq> ''InBed''"
    using assms by (simp add: valid_segment_def kept_def)
  ultimately have "normalize [s] = Inr [s]" by (rule normalize_idem) simp
  then show ?thesis by (simp add: from_segments_def)
qed

lemma from_segments_apart:
  assumes "valid_segment s1" "kept s1" "valid_segment s2" "kept s2"
    and "end_dt s1 < start_dt s2"
  shows "from_segments [s1, s2] =
    Inr \<lparr>session_start_dt = start_dt s1, session_end_dt = end_dt s2, segments = [s1, s2]\<rparr>"
proof -
  have "chain [s1, s2]" using assms by (simp add: chain_def kept_def duration_def)
  moreover have "\<forall>x\<in>set [s1, s2]. stage x \<in> set SLEEP_STAGES_values \<and> stage x \<noteq> ''InBed''"
    using assms by (simp add: valid_segment_def kept_def)
  moreover have "no_adjacent_same [s1, s2]" using assms(5) by simp
  ultimately have "normalize [s1, s2] = Inr [s1, s2]" by (rule normalize_idem)
  then show ?thesis by (simp add: from_segments_def)
qed

text \<open>
  What the loop of the grouper does, for every list of segments and every gap: its
  sessions are built, in order and up to the first error, from the groups of \<open>loop_groups\<close> on
  the kept segments; these partition the list into non-empty runs, a run ending exactly
  between two consecutive segments \<open>x\<close>, \<open>y\<close> with \<open>start y - end x > gap\<close>. Two kept segments
  three hours apart, one ending at 23:00 and the next starting at 02:00, give two sessions
  under a two-hour gap and one session under a four-hour gap.
\<close>

lemma build_sleep_sessions_partition:
  "build_sleep_sessions segs gap =
     collect (map from_segments (loop_groups gap (filter kept segs))) \<and>
   concat (loop_groups gap (filter kept segs)) = filter kept segs \<and>
   [] \<notin> set (loop_groups gap (filter kept segs)) \<and>
   (\<forall>g\<in>set (loop_groups gap (filter kept segs)). within_gap gap g) \<and>
   separated gap (loop_groups gap (filter kept segs)) \<and>
   (\<forall>s1 s2. valid_segment s1 \<and> kept s1 \<and> valid_segment s2 \<and> kept s2 \<and>
       start_dt s2 - end_dt s1 = timedelta_hours 3 \<longrightarrow>
       build_sleep_sessions [s1, s2] (timedelta_hours 2) =
         Inr [\<lparr>session_start_dt = start_dt s1, session_end_dt = end_dt s1, segments = [s1]\<rparr>,
              \<lparr>session_start_dt = start_dt s2, session_end_dt = end_dt s2, segments = [s2]\<rparr>] \<and>
       build_sleep_sessions [s1, s2] (timedelta_hours 4) =
         Inr [\<lparr>session_start_dt = start_dt s1, session_end_dt = end_dt s2,
               segments = [s1, s2]\<rparr>])"
proof (intro conjI allI impI)
  show "build_sleep_sessions segs gap =
     collect (map from_segments (loop_groups gap (filter kept segs)))"
    by (rule build_sleep_sessions_groups)
next
  show "concat (loop_groups gap (filter kept segs)) = filter kept segs"
    using loop_groups_partition [of gap "filter kept segs"] by simp
next
  show "[] \<notin> set (loop_groups gap (filter kept segs))"
    using loop_groups_partition [of gap "filter kept segs"] by simp
next
  show "\<forall>g\<in>set (loop_groups gap (filter kept segs)). within_gap gap g"
    using loop_groups_partition [of gap "filter kept segs"] by simp
next
  show "separated gap (loop_groups gap (filter kept segs))"
    using loop_groups_partition [of gap "filter kept segs"] by simp
next
  fix s1 s2
  assume a: "valid_segment s1 \<and> kept s1 \<and> valid_segment s2 \<and> kept s2 \<and>
       start_dt s2 - end_dt s1 = timedelta_hours 3"
  then have lt: "end_dt s1 < start_dt s2" by (simp add: timedelta_hours_def)
  have f1: "from_segments [s1] =
      Inr \<lparr>session_start_dt = start_dt s1, session_end_dt = end_dt s1, segments = [s1]\<rparr>"
    and f2: "from_segments [s2] =
      Inr \<lparr>session_start_dt = start_dt s2, session_end_dt = end_dt s2, segments = [s2]\<rparr>"
    using a by (simp_all add: from_segments_single)
  have f12: "from_segments [s1, s2] =
      Inr \<lparr>session_start_dt = start_dt s1, session_end_dt = end_dt s2, segments = [s1, s2]\<rparr>"
    using a lt by (simp add: from_segments_apart)
  show "build_sleep_sessions [s1, s2] (timedelta_hours 2) =
         Inr [\<lparr>session_start_dt = start_dt s1, session_end_dt = end_dt s1, segments = [s1]\<rparr>,
              \<lparr>session_start_dt = start_dt s2, session_end_dt = end_dt s2, segments = [s2]\<rparr>]"
    unfolding build_sleep_sessions_groups using a f1 f2 by (simp add: timedelta_hours_def)
  show "build_sleep_sessions [s1, s2] (timedelta_hours 4) =
         Inr [\<lparr>session_start_dt = start_dt s1, session_end_dt = end_dt s2,
               segments = [s1, s2]\<rparr>]"
    unfolding build_sleep_sessions_groups using a f12
    by (simp add: timedelta_hours_def attach_def)
qed

text \<open>
  Where the ends of the kept segments never decrease, as for segments that do not overlap,
  the end of the segment added last is the latest end of the group, and the grouper forms
  the groups of the specification.
\<close>

lemma latest_end_snoc:
  assumes "\<forall>x\<in>set pre. end_dt x \<le> end_dt l"
  shows "latest_end (pre @ [l]) = end_dt l"
proof -
  have "Max (end_dt ` set (pre @ [l])) = end_dt l"
    using assms by (intro Max_eqI) auto
  then show ?thesis by (simp add: latest_end_def)
qed

lemma spec_groups_from_loop_groups:
  "\<forall>x\<in>set pre. end_dt x \<le> end_dt l \<Longrightarrow> sorted (map end_dt (l # rest)) \<Longrightarrow>
   spec_groups_from gap (pre @ [l]) rest = attach pre (loop_groups gap (l # rest))"
proof (induction rest arbitrary: pre l)
  case Nil
  then show ?case by (simp add: attach_def)
next
  case (Cons seg rest)
  have le: "latest_end (pre @ [l]) = end_dt l" by (rule latest_end_snoc [OF Cons.prems(1)])
  have srt: "sorted (map end_dt (seg # rest))" and ls: "end_dt l \<le> end_dt seg"
    using Cons.prems(2) by simp_all
  show ?case
  proof (cases "start_dt seg - end_dt l > gap")
    case True
    have "spec_groups_from gap ([] @ [seg]) rest = attach [] (loop_groups gap (seg # rest))"
      by (rule Cons.IH [OF _ srt]) simp
    then have "spec_groups_from gap [seg] rest = loop_groups gap (seg # rest)"
      by (simp add: attach_Nil [OF loop_groups_nonempty])
    then show ?thesis using True le by (simp add: attach_def)
  next
    case False
    have "\<forall>x\<in>set (pre @ [l]). end_dt x \<le> end_dt seg" using Cons.prems(1) ls by auto
    then have "spec_groups_from gap ((pre @ [l]) @ [seg]) rest =
        attach (pre @ [l]) (loop_groups gap (seg # rest))"
      using srt by (rule Cons.IH)
    then show ?thesis using False le
      by (simp add: attach_attach [OF loop_groups_nonempty])
  qed
qed

lemma spec_groups_loop_groups:
  assumes "sorted (map end_dt segs)"
  shows "spec_groups gap segs = loop_groups gap segs"
proof (cases segs)
  case Nil
  then show ?thesis by (simp add: spec_groups_def)
next
  case (Cons s rest)
  have "spec_groups_from gap ([] @ [s]) rest = attach [] (loop_groups gap (s # rest))"
    using assms Cons by (intro spec_groups_from_loop_groups) simp_all
  then show ?thesis using Cons
    by (simp add: spec_groups_def attach_Nil [OF loop_groups_nonempty])
qed

lemma build_sleep_sessions_spec_groups:
  assumes "sorted (map end_dt (filter kept segs))"
  shows "build_sleep_sessions segs gap =
         collect (map from_segments (spec_groups gap (filter kept segs)))"
  by (simp add: build_sleep_sessions_groups spec_groups_loop_groups [OF assms])

text \<open>
  Claim C4 at a list in ascending start order: Asleep on \<open>[0:00, 8:00)\<close>, Core on
  \<open>[0:30, 1:00)\<close>, Deep on \<open>[4:00, 4:30)\<close>, with a two-hour gap. The latest end of the group
  of the first two segments is 8:00, so the third segment, starting at 4:00, belongs to that
  group and the specification gives one session. The code compares with the end of the
  segment added last, 1:00, starts a new group, and returns two sessions, the second
  inside the first: its start minus the end of the first is minus four hours, not more
  than the gap.
\<close>

theorem grouper_splits_inside_group:
  "build_sleep_sessions
     [\<lparr>start_dt = 0, end_dt = 28800000000, stage = ''Asleep''\<rparr>,
      \<lparr>start_dt = 1800000000, end_dt = 3600000000, stage = ''Core''\<rparr>,
      \<lparr>start_dt = 14400000000, end_dt = 16200000000, stage = ''Deep''\<rparr>] (timedelta_hours 2) =
     Inr [\<lparr>session_start_dt = 0, session_end_dt = 28800000000,
           segments = [\<lparr>start_dt = 0, end_dt = 1800000000, stage = ''Asleep''\<rparr>,
                       \<lparr>start_dt = 1800000000, end_dt = 3600000000, stage = ''Core''\<rparr>,
                       \<lparr>start_dt = 3600000000, end_dt = 28800000000, stage = ''Asleep''\<rparr>]\<rparr>,
          \<lparr>session_start_dt = 14400000000, session_end_dt = 16200000000,
           segments = [\<lparr>start_dt = 14400000000, end_dt = 16200000000, stage = ''Deep''\<rparr>]\<rparr>] \<and>
   spec_groups (timedelta_hours 2)
     (filter kept
        [\<lparr>start_dt = 0, end_dt = 28800000000, stage = ''Asleep''\<rparr>,
         \<lparr>start_dt = 1800000000, end_dt = 3600000000, stage = ''Core''\<rparr>,
         \<lparr>start_dt = 14400000000, end_dt = 16200000000, stage = ''Deep''\<rparr>]) =
     [[\<lparr>start_dt = 0, end_dt = 28800000000, stage = ''Asleep''\<rparr>,
       \<lparr>start_dt = 1800000000, end_dt = 3600000000, stage = ''Core''\<rparr>,
       \<lparr>start_dt = 14400000000, end_dt = 16200000000, stage = ''Deep''\<rparr>]] \<and>
   collect (map from_segments (spec_groups (timedelta_hours 2)
     (filter kept
        [\<lparr>start_dt = 0, end_dt = 28800000000, stage = ''Asleep''\<rparr>,
         \<lparr>start_dt = 1800000000, end_dt = 3600000000, stage = ''Core''\<rparr>,
         \<lparr>start_dt = 14400000000, end_dt = 16200000000, stage = ''Deep''\<rparr>]))) =
     Inr [\<lparr>session_start_dt = 0, session_end_dt = 28800000000,
           segments = [\<lparr>start_dt = 0, end_dt = 1800000000, stage = ''Asleep''\<rparr>,
                       \<lparr>start_dt = 1800000000, end_dt = 3600000000, stage = ''Core''\<rparr>,
                       \<lparr>start_dt = 3600000000, end_dt = 14400000000, stage = ''Asleep''\<rparr>,
                       \<lparr>start_dt = 14400000000, end_dt = 16200000000, stage = ''Deep''\<rparr>,
                       \<lparr>start_dt = 16200000000, end_dt = 28800000000, stage = ''Asleep''\<rparr>]\<rparr>] \<and>
   (14400000000 :: int) - 28800000000 \<le> timedelta_hours 2"
  by code_simp

lemma no_boundary_inside:
  "sorted_wrt (<) bs \<Longrightarrow> (a, b) \<in> set (zip bs (tl bs)) \<Longrightarrow> z \<in> set bs \<Longrightarrow>
     z \<le> a \<or> b \<le> (z::int)"
proof (induction bs)
  case Nil
  then show ?case by simp
next
  case (Cons x xs)
  show ?case
  proof (cases xs)
    case Nil
    then show ?thesis using Cons.prems by simp
  next
    case (Cons y ys)
    have ab: "(a, b) = (x, y) \<or> (a, b) \<in> set (zip xs (tl xs))"
      using Cons.prems(2) Cons by auto
    have sx: "sorted_wrt (<) xs" and xlt: "\<forall>v\<in>set xs. x < v" using Cons.prems(1) by auto
    have ymin: "\<forall>v\<in>set xs. y \<le> v" using sx Cons by auto
    from ab show ?thesis
    proof
      assume "(a, b) = (x, y)"
      then show ?thesis using Cons.prems(3) ymin by auto
    next
      assume in_tl: "(a, b) \<in> set (zip xs (tl xs))"
      then have "a \<in> set xs" by (meson set_zip_leftD)
      then have xa: "x < a" using xlt by simp
      show ?thesis
      proof (cases "z = x")
        case True
        then show ?thesis using xa by simp
      next
        case False
        then have "z \<in> set xs" using Cons.prems(3) by simp
        then show ?thesis using Cons.IH [OF sx in_tl] by simp
      qed
    qed
  qed
qed

lemma covering_iff_covers:
  assumes "c \<in> set segs" and "(a, b) \<in> set (zip (boundaries segs) (tl (boundaries segs)))"
    and "a \<le> t" and "t < b"
  shows "c \<in> set (covering segs a b) \<longleftrightarrow> covers c t"
proof -
  have s: "start_dt c \<in> set (boundaries segs)" and e: "end_dt c \<in> set (boundaries segs)"
    using assms(1) by (auto simp: set_boundaries)
  have s': "start_dt c \<le> a \<or> b \<le> start_dt c"
    by (rule no_boundary_inside [OF boundaries_strict assms(2) s])
  have e': "end_dt c \<le> a \<or> b \<le> end_dt c"
    by (rule no_boundary_inside [OF boundaries_strict assms(2) e])
  show ?thesis using s' e' assms(1,3,4) by (auto simp: covering_def covers_def)
qed

lemma resolve_well_resolved:
  assumes res: "resolve segs (zip (boundaries segs) (tl (boundaries segs))) = Inr result"
    and x: "x \<in> set result"
  shows "well_resolved segs x"
proof -
  let ?ps = "zip (boundaries segs) (tl (boundaries segs))"
  let ?k = "\<lambda>s. stage_priority (stage s)"
  have "(start_dt x, end_dt x) \<in> set (map (\<lambda>s. (start_dt s, end_dt s)) result)"
    using x by force
  then have iv: "(start_dt x, end_dt x) \<in> set ?ps"
    using resolve_intervals [OF res] by simp
  obtain c cs where cov: "covering segs (start_dt x) (end_dt x) = c # cs"
    and w: "stage x = stage (max_key ?k c cs)"
    using resolve_winner [OF res x] by blast
  let ?w = "max_key ?k c cs"
  have w_in: "?w \<in> set (covering segs (start_dt x) (end_dt x))"
    using max_key_mem [of ?k c cs] cov by simp
  then have w_seg: "?w \<in> set segs" by (simp add: covering_def)
  show ?thesis
    unfolding well_resolved_def
  proof (intro allI impI conjI ballI)
    fix t assume t: "covers x t"
    then have t1: "start_dt x \<le> t" and t2: "t < end_dt x" by (simp_all add: covers_def)
    have "covers ?w t" using covering_iff_covers [OF w_seg iv t1 t2] w_in by simp
    then show "\<exists>w\<in>set segs. covers w t \<and> stage x = stage w" using w_seg w by blast
  next
    fix t c' assume t: "covers x t" and c': "c' \<in> set segs" and ct: "covers c' t"
    from t have t1: "start_dt x \<le> t" and t2: "t < end_dt x" by (simp_all add: covers_def)
    have "c' \<in> set (c # cs)" using covering_iff_covers [OF c' iv t1 t2] ct cov by simp
    then have "?k c' \<le> ?k ?w" by (rule max_key_max)
    then show "stage_priority (stage c') \<le> stage_priority (stage x)" using w by simp
  qed
qed

lemma well_resolved_merge:
  assumes "well_resolved segs p" and "well_resolved segs s"
    and "stage s = stage p" and "start_dt s = end_dt p"
  shows "well_resolved segs \<lparr>start_dt = start_dt p, end_dt = end_dt s, stage = stage s\<rparr>"
  unfolding well_resolved_def
proof (intro allI impI)
  fix t
  assume t: "covers \<lparr>start_dt = start_dt p, end_dt = end_dt s, stage = stage s\<rparr> t"
  have "covers p t \<or> covers s t" using t assms(4) by (auto simp: covers_def)
  then show "(\<exists>w\<in>set segs. covers w t \<and>
        stage \<lparr>start_dt = start_dt p, end_dt = end_dt s, stage = stage s\<rparr> = stage w) \<and>
      (\<forall>c\<in>set segs. covers c t \<longrightarrow> stage_priority (stage c)
         \<le> stage_priority (stage \<lparr>start_dt = start_dt p, end_dt = end_dt s, stage = stage s\<rparr>))"
  proof
    assume "covers p t"
    then show ?thesis using assms(1,3) unfolding well_resolved_def by simp
  next
    assume "covers s t"
    then show ?thesis using assms(2) unfolding well_resolved_def by simp
  qed
qed

lemma merge_adjacent_well_resolved:
  "merge_adjacent merged rest = Inr out \<Longrightarrow> merged \<noteq> [] \<Longrightarrow>
   \<forall>x\<in>set (merged @ rest). well_resolved segs x \<Longrightarrow>
   \<forall>x\<in>set out. well_resolved segs x"
proof (induction rest arbitrary: merged)
  case Nil
  then show ?case by simp
next
  case (Cons seg rest)
  obtain ms prev where merged: "merged = ms @ [prev]"
    using Cons.prems(2) by (cases merged rule: rev_cases) auto
  have wms: "\<forall>x\<in>set ms. well_resolved segs x"
    and wp: "well_resolved segs prev"
    and ws: "well_resolved segs seg"
    and wrest: "\<forall>x\<in>set rest. well_resolved segs x"
    using Cons.prems(3) unfolding merged by (simp_all add: ball_Un)
  show ?case
  proof (cases "stage seg = stage prev \<and> start_dt seg = end_dt prev")
    case True
    let ?m = "\<lparr>start_dt = start_dt prev, end_dt = end_dt seg, stage = stage seg\<rparr>"
    have step: "merge_adjacent merged (seg # rest) =
        (case mk_SleepSegment (start_dt prev) (end_dt seg) (stage seg) of
           Inl e \<Rightarrow> Inl e | Inr m \<Rightarrow> merge_adjacent (ms @ [m]) rest)"
      unfolding merged using True by (simp cong: sum.case_cong)
    obtain m where m: "mk_SleepSegment (start_dt prev) (end_dt seg) (stage seg) = Inr m"
      and out: "merge_adjacent (ms @ [m]) rest = Inr out"
      using Cons.prems(1) unfolding step by (cases "mk_SleepSegment (start_dt prev) (end_dt seg) (stage seg)") simp_all
    have m_eq: "m = ?m" using mk_SleepSegment_Inr [OF m] by simp
    have s1: "stage seg = stage prev" and s2: "start_dt seg = end_dt prev" using True by simp_all
    have wm: "well_resolved segs m"
      unfolding m_eq by (rule well_resolved_merge [OF wp ws s1 s2])
    have all: "\<forall>x\<in>set ((ms @ [m]) @ rest). well_resolved segs x"
      using wms wm wrest by (simp add: ball_Un)
    have ne: "ms @ [m] \<noteq> []" by simp
    show ?thesis by (rule Cons.IH [OF out ne all])
  next
    case False
    have step: "merge_adjacent merged (seg # rest) = merge_adjacent (merged @ [seg]) rest"
      unfolding merged using False by auto
    have out: "merge_adjacent (merged @ [seg]) rest = Inr out"
      using Cons.prems(1) unfolding step .
    have all: "\<forall>x\<in>set ((merged @ [seg]) @ rest). well_resolved segs x"
      unfolding merged using wms wp ws wrest by (simp add: ball_Un)
    have ne: "merged @ [seg] \<noteq> []" by simp
    show ?thesis by (rule Cons.IH [OF out ne all])
  qed
qed

lemma normalize_well_resolved:
  assumes "normalize segs0 = Inr out" and "x \<in> set out"
  shows "well_resolved (filter kept segs0) x"
proof (cases "filter kept segs0 = []")
  case True
  then show ?thesis using assms by (simp add: normalize_def)
next
  case False
  let ?segs = "sort_key (\<lambda>s. (start_dt s, end_dt s)) (filter kept segs0)"
  let ?bs = "boundaries ?segs"
  from assms(1) False obtain result where
    res: "resolve ?segs (zip ?bs (tl ?bs)) = Inr result"
    and out: "(case result of [] \<Rightarrow> Inr [] | r # rs \<Rightarrow> merge_adjacent [r] rs) = Inr out"
    by (auto simp: normalize_def Let_def split: sum.splits)
  have wr: "\<forall>y\<in>set result. well_resolved ?segs y"
    using resolve_well_resolved [OF res] by blast
  have "well_resolved ?segs x"
  proof (cases result)
    case Nil
    then show ?thesis using out assms(2) by simp
  next
    case (Cons r rs)
    then have m: "merge_adjacent [r] rs = Inr out" using out by simp
    show ?thesis using merge_adjacent_well_resolved [OF m, of ?segs] wr Cons assms(2) by simp
  qed
  then show ?thesis by (simp add: well_resolved_def)
qed

lemma stage_priority_table:
  "stage_priority ''Awake'' = 5 \<and> stage_priority ''REM'' = 4 \<and> stage_priority ''Deep'' = 3 \<and>
   stage_priority ''Core'' = 2 \<and> stage_priority ''Asleep'' = 1 \<and>
   stage_priority ''Unspecified'' = 0"
  by (simp add: stage_priority_def STAGE_PRIORITY_def)

text \<open>
  Claim C7. The loop over the elementary intervals emits one segment for each interval that
  some segment covers, in order, and its stage is the stage of a covering segment whose
  priority is greatest among the covering segments. For the normalizer as a whole: at every
  instant of every segment it returns, the stage is that of a kept input segment containing
  the instant, and no kept input segment containing the instant has a greater priority. The
  priorities are Awake 5, REM 4, Deep 3, Core 2, Asleep 1, Unspecified 0. Core on
  \<open>[00:00, 02:00)\<close> with Awake on \<open>[00:30, 01:30)\<close> normalizes to Core \<open>[00:00, 00:30)\<close>,
  Awake \<open>[00:30, 01:30)\<close>, Core \<open>[01:30, 02:00)\<close>.
\<close>

theorem overlap_resolution:
  "(resolve segs ps = Inr result \<longrightarrow>
      map (\<lambda>s. (start_dt s, end_dt s)) result =
        filter (\<lambda>(a, b). covering segs a b \<noteq> []) ps \<and>
      (\<forall>x\<in>set result.
         \<exists>w\<in>set (covering segs (start_dt x) (end_dt x)).
           stage x = stage w \<and>
           (\<forall>c\<in>set (covering segs (start_dt x) (end_dt x)).
              stage_priority (stage c) \<le> stage_priority (stage w)))) \<and>
   (normalize segs0 = Inr out \<longrightarrow>
      (\<forall>x\<in>set out. \<forall>t. covers x t \<longrightarrow>
         (\<exists>w\<in>set segs0. kept w \<and> covers w t \<and> stage x = stage w) \<and>
         (\<forall>c\<in>set segs0. kept c \<and> covers c t \<longrightarrow>
            stage_priority (stage c) \<le> stage_priority (stage x)))) \<and>
   stage_priority ''Awake'' = 5 \<and> stage_priority ''REM'' = 4 \<and> stage_priority ''Deep'' = 3 \<and>
   stage_priority ''Core'' = 2 \<and> stage_priority ''Asleep'' = 1 \<and>
   stage_priority ''Unspecified'' = 0 \<and>
   normalize
     [\<lparr>start_dt = 0, end_dt = timedelta_hours 2, stage = ''Core''\<rparr>,
      \<lparr>start_dt = timedelta_minutes 30, end_dt = timedelta_minutes 90, stage = ''Awake''\<rparr>] =
     Inr [\<lparr>start_dt = 0, end_dt = timedelta_minutes 30, stage = ''Core''\<rparr>,
          \<lparr>start_dt = timedelta_minutes 30, end_dt = timedelta_minutes 90, stage = ''Awake''\<rparr>,
          \<lparr>start_dt = timedelta_minutes 90, end_dt = timedelta_hours 2, stage = ''Core''\<rparr>]"
proof -
  have A: "resolve segs ps = Inr result \<longrightarrow>
      map (\<lambda>s. (start_dt s, end_dt s)) result =
        filter (\<lambda>(a, b). covering segs a b \<noteq> []) ps \<and>
      (\<forall>x\<in>set result.
         \<exists>w\<in>set (covering segs (start_dt x) (end_dt x)).
           stage x = stage w \<and>
           (\<forall>c\<in>set (covering segs (start_dt x) (end_dt x)).
              stage_priority (stage c) \<le> stage_priority (stage w)))"
  proof (intro impI conjI ballI)
    assume res: "resolve segs ps = Inr result"
    show "map (\<lambda>s. (start_dt s, end_dt s)) result =
        filter (\<lambda>(a, b). covering segs a b \<noteq> []) ps"
      by (rule resolve_intervals [OF res])
    fix x assume x: "x \<in> set result"
    let ?k = "\<lambda>s. stage_priority (stage s)"
    obtain c cs where cov: "covering segs (start_dt x) (end_dt x) = c # cs"
      and w: "stage x = stage (max_key ?k c cs)"
      using resolve_winner [OF res x] by blast
    have in_cov: "max_key ?k c cs \<in> set (covering segs (start_dt x) (end_dt x))"
      using max_key_mem [of ?k c cs] cov by simp
    have mx: "\<forall>y\<in>set (covering segs (start_dt x) (end_dt x)). ?k y \<le> ?k (max_key ?k c cs)"
      using max_key_max [of _ c cs ?k] cov by simp
    show "\<exists>w\<in>set (covering segs (start_dt x) (end_dt x)).
           stage x = stage w \<and>
           (\<forall>c\<in>set (covering segs (start_dt x) (end_dt x)).
              stage_priority (stage c) \<le> stage_priority (stage w))"
      using in_cov w mx by blast
  qed
  have B: "normalize segs0 = Inr out \<longrightarrow>
      (\<forall>x\<in>set out. \<forall>t. covers x t \<longrightarrow>
         (\<exists>w\<in>set segs0. kept w \<and> covers w t \<and> stage x = stage w) \<and>
         (\<forall>c\<in>set segs0. kept c \<and> covers c t \<longrightarrow>
            stage_priority (stage c) \<le> stage_priority (stage x)))"
  proof (intro impI ballI allI)
    fix x t assume n: "normalize segs0 = Inr out" and x: "x \<in> set out" and t: "covers x t"
    have "well_resolved (filter kept segs0) x" by (rule normalize_well_resolved [OF n x])
    then show "(\<exists>w\<in>set segs0. kept w \<and> covers w t \<and> stage x = stage w) \<and>
         (\<forall>c\<in>set segs0. kept c \<and> covers c t \<longrightarrow>
            stage_priority (stage c) \<le> stage_priority (stage x))"
      using t unfolding well_resolved_def by auto
  qed
  have C: "normalize
     [\<lparr>start_dt = 0, end_dt = timedelta_hours 2, stage = ''Core''\<rparr>,
      \<lparr>start_dt = timedelta_minutes 30, end_dt = timedelta_minutes 90, stage = ''Awake''\<rparr>] =
     Inr [\<lparr>start_dt = 0, end_dt = timedelta_minutes 30, stage = ''Core''\<rparr>,
          \<lparr>start_dt = timedelta_minutes 30, end_dt = timedelta_minutes 90, stage = ''Awake''\<rparr>,
          \<lparr>start_dt = timedelta_minutes 90, end_dt = timedelta_hours 2, stage = ''Core''\<rparr>]"
    by (simp add: sleep_eval)
  show ?thesis using A B C stage_priority_table by blast
qed

theorem overlap_resolution_witness:
  "normalize
     [\<lparr>start_dt = 0, end_dt = 7200, stage = ''Core''\<rparr>,
      \<lparr>start_dt = 1800, end_dt = 5400, stage = ''Awake''\<rparr>] =
     Inr [\<lparr>start_dt = 0, end_dt = 1800, stage = ''Core''\<rparr>,
          \<lparr>start_dt = 1800, end_dt = 5400, stage = ''Awake''\<rparr>,
          \<lparr>start_dt = 5400, end_dt = 7200, stage = ''Core''\<rparr>] \<and>
   covers \<lparr>start_dt = 1800, end_dt = 5400, stage = ''Awake''\<rparr> 2700 \<and>
   kept \<lparr>start_dt = 0, end_dt = 7200, stage = ''Core''\<rparr> \<and>
   covers \<lparr>start_dt = 0, end_dt = 7200, stage = ''Core''\<rparr> 2700 \<and>
   stage_priority ''Core'' \<le> stage_priority ''Awake''"
proof -
  let ?core = "\<lparr>start_dt = 0, end_dt = 7200, stage = ''Core''\<rparr>"
  let ?awake = "\<lparr>start_dt = 1800, end_dt = 5400, stage = ''Awake''\<rparr>"
  let ?out = "[\<lparr>start_dt = 0, end_dt = 1800, stage = ''Core''\<rparr>, ?awake,
               \<lparr>start_dt = 5400, end_dt = 7200, stage = ''Core''\<rparr>]"
  have n: "normalize [?core, ?awake] = Inr ?out" by (simp add: sleep_eval)
  have c1: "covers ?awake 2700" and c2: "covers ?core 2700" and k: "kept ?core"
    by (simp_all add: covers_def kept_def duration_def)
  have "\<forall>x\<in>set ?out. \<forall>t. covers x t \<longrightarrow>
         (\<exists>w\<in>set [?core, ?awake]. kept w \<and> covers w t \<and> stage x = stage w) \<and>
         (\<forall>c\<in>set [?core, ?awake]. kept c \<and> covers c t \<longrightarrow>
            stage_priority (stage c) \<le> stage_priority (stage x))"
    using overlap_resolution [where ?segs0.0 = "[?core, ?awake]" and out = ?out] n by blast
  then have "\<forall>c\<in>set [?core, ?awake]. kept c \<and> covers c 2700 \<longrightarrow>
            stage_priority (stage c) \<le> stage_priority (stage ?awake)"
    using c1 by simp
  then have "stage_priority ''Core'' \<le> stage_priority ''Awake''" using k c2 by simp
  then show ?thesis using n c1 c2 k by simp
qed

section \<open>The normalizer returns a normal form\<close>

text \<open>
  What the normalizer returns has no two touching neighbours of one stage, so normalizing
  it again changes nothing.
\<close>

lemma no_adjacent_same_snoc_add:
  "no_adjacent_same (ms @ [p]) \<Longrightarrow> \<not> (stage s = stage p \<and> start_dt s = end_dt p) \<Longrightarrow>
   no_adjacent_same (ms @ [p, s])"
proof (induction ms)
  case Nil
  then show ?case by simp
next
  case (Cons x xs)
  then show ?case by (cases xs) auto
qed

lemma no_adjacent_same_snoc_replace:
  "no_adjacent_same (ms @ [p]) \<Longrightarrow> stage m = stage p \<Longrightarrow> start_dt m = start_dt p \<Longrightarrow>
   no_adjacent_same (ms @ [m])"
proof (induction ms)
  case Nil
  then show ?case by simp
next
  case (Cons x xs)
  then show ?case by (cases xs) auto
qed

lemma merge_adjacent_no_adjacent_same:
  "merge_adjacent merged rest = Inr out \<Longrightarrow> merged \<noteq> [] \<Longrightarrow> no_adjacent_same merged \<Longrightarrow>
   no_adjacent_same out"
proof (induction rest arbitrary: merged)
  case Nil
  then show ?case by simp
next
  case (Cons seg rest)
  obtain ms prev where merged: "merged = ms @ [prev]"
    using Cons.prems(2) by (cases merged rule: rev_cases) auto
  show ?case
  proof (cases "stage seg = stage prev \<and> start_dt seg = end_dt prev")
    case True
    have step: "merge_adjacent merged (seg # rest) =
        (case mk_SleepSegment (start_dt prev) (end_dt seg) (stage seg) of
           Inl e \<Rightarrow> Inl e | Inr m \<Rightarrow> merge_adjacent (ms @ [m]) rest)"
      unfolding merged using True by (simp cong: sum.case_cong)
    obtain m where m: "mk_SleepSegment (start_dt prev) (end_dt seg) (stage seg) = Inr m"
      and out: "merge_adjacent (ms @ [m]) rest = Inr out"
      using Cons.prems(1) unfolding step
      by (cases "mk_SleepSegment (start_dt prev) (end_dt seg) (stage seg)") simp_all
    have m_eq: "m = \<lparr>start_dt = start_dt prev, end_dt = end_dt seg, stage = stage seg\<rparr>"
      using mk_SleepSegment_Inr [OF m] by simp
    have "no_adjacent_same (ms @ [m])"
      using no_adjacent_same_snoc_replace [of ms prev m] Cons.prems(3) True
      unfolding merged m_eq by simp
    then show ?thesis using Cons.IH [OF out] by simp
  next
    case False
    have step: "merge_adjacent merged (seg # rest) = merge_adjacent (merged @ [seg]) rest"
      unfolding merged using False by auto
    have out: "merge_adjacent (merged @ [seg]) rest = Inr out"
      using Cons.prems(1) unfolding step .
    have "no_adjacent_same (merged @ [seg])"
      using no_adjacent_same_snoc_add [of ms prev seg] Cons.prems(3) False
      unfolding merged by simp
    then show ?thesis using Cons.IH [OF out] by simp
  qed
qed

lemma normalize_no_adjacent_same:
  assumes "normalize segs0 = Inr out"
  shows "no_adjacent_same out"
proof (cases "filter kept segs0 = []")
  case True
  then show ?thesis using assms by (auto simp: normalize_def)
next
  case False
  let ?segs = "sort_key (\<lambda>s. (start_dt s, end_dt s)) (filter kept segs0)"
  let ?bs = "boundaries ?segs"
  from assms False obtain result where
    out: "(case result of [] \<Rightarrow> Inr [] | r # rs \<Rightarrow> merge_adjacent [r] rs) = Inr out"
    by (auto simp: normalize_def Let_def split: sum.splits)
  show ?thesis
  proof (cases result)
    case Nil
    then show ?thesis using out by auto
  next
    case (Cons r rs)
    then have m: "merge_adjacent [r] rs = Inr out" using out by simp
    show ?thesis using merge_adjacent_no_adjacent_same [OF m] by simp
  qed
qed

lemma normalize_twice:
  assumes "normalize segs0 = Inr out"
  shows "normalize out = Inr out"
proof -
  have "chain out" and "\<forall>x\<in>set out. stage x \<in> set SLEEP_STAGES_values \<and> stage x \<noteq> ''InBed''"
    using normalize_inv [OF assms] by auto
  then show ?thesis using normalize_no_adjacent_same [OF assms] by (rule normalize_idem)
qed

section \<open>Properties of the record model, the reader and the timestamp normalizer\<close>

lemma dict_get_update:
  "dict_get (AList.update k v d) k' = (if k' = k then v else dict_get d k')"
  by (simp add: dict_get_def update_conv')

lemma update_same: "dict_get d k = v \<Longrightarrow> k \<in> fst ` set d \<Longrightarrow> AList.update k v d = d"
proof -
  assume a: "dict_get d k = v" and b: "k \<in> fst ` set d"
  from b obtain w where "map_of d k = Some w"
    by (metis domD dom_map_of_conv_image_fst)
  then have "map_of d k = Some v" using a by (simp add: dict_get_def)
  then show ?thesis by (rule update_triv)
qed

lemma key_in_update: "k \<in> fst ` set (AList.update k v d)"
  by (simp add: dom_update)

lemma key_kept_update: "k \<in> fst ` set d \<Longrightarrow> k \<in> fst ` set (AList.update k' v d)"
  by (simp add: dom_update)

lemma truthy_por: "truthy b \<Longrightarrow> truthy (por a b)"
  by (simp add: por_def)

lemma por_truthy: "truthy a \<Longrightarrow> por a b = a"
  by (simp add: por_def)

lemma truthy_determine_record_type:
  "truthy t \<Longrightarrow> truthy (determine_record_type t attrs)"
  by (simp add: determine_record_type_def Let_def truthy_por)

lemma from_element_round_trip:
  assumes ne: "elem_tag e \<noteq> []" and r: "from_element L e = Inr r"
  shows "from_dict L (to_dict r) = Inr r"
proof -
  obtain attrs0 where p: "parse_attributes e = Inr attrs0"
    using r by (auto simp: from_element_def split: sum.splits)
  let ?t = "PStr (elem_tag e)"
  let ?a1 = "AList.update ''_tag'' ?t attrs0"
  let ?rt = "determine_record_type ?t ?a1"
  let ?a2 = "AList.update ''_type'' ?rt ?a1"
  obtain s en where w: "derive_time_window L ?a2 = Inr (s, en)"
    using r p by (auto simp: from_element_def Let_def split: sum.splits)
  have r_eq: "r = \<lparr>tag = ?t, record_type = ?rt,
      record_start_dt = s, record_end_dt = en, attributes = ?a2\<rparr>"
    using r p w by (simp add: from_element_def Let_def)
  have tt: "truthy ?t" using ne by simp
  have trt: "truthy ?rt" by (rule truthy_determine_record_type [OF tt])
  have g_tag: "dict_get ?a2 ''_tag'' = ?t" by (simp add: dict_get_update)
  have in_tag: "''_tag'' \<in> fst ` set ?a2" by (intro key_kept_update key_in_update)
  have u1: "AList.update ''_tag'' ?t ?a2 = ?a2" by (rule update_same [OF g_tag in_tag])
  have g_type: "dict_get ?a2 ''_type'' = ?rt" by (simp add: dict_get_update)
  have in_type: "''_type'' \<in> fst ` set ?a2" by (rule key_in_update)
  have u2: "AList.update ''_type'' ?rt ?a2 = ?a2" by (rule update_same [OF g_type in_type])
  have t': "por (dict_get ?a2 ''_tag'') (por (dict_get ?a2 ''tag'') (PStr ''Record'')) = ?t"
    unfolding g_tag by (rule por_truthy [OF tt])
  have rt': "por (dict_get ?a2 ''_type'') (determine_record_type ?t ?a2) = ?rt"
    unfolding g_type by (rule por_truthy [OF trt])
  have "from_dict L ?a2 = Inr \<lparr>tag = ?t, record_type = ?rt,
      record_start_dt = s, record_end_dt = en, attributes = ?a2\<rparr>"
    unfolding from_dict_def Let_def t' u1 rt' u2 by (simp add: w)
  then show ?thesis unfolding r_eq to_dict_def by simp
qed

lemma view_tag: "elem_tag (view rt e) = elem_tag e"
  by (cases e) simp

lemma events_tags:
  "wf_elem e \<Longrightarrow> x \<in> set (events rt inside e) \<Longrightarrow> elem_tag x \<noteq> []"
proof (induction rt inside e rule: events.induct)
  case (1 rt inside t a cs)
  from "1.prems"(2) have
    "(\<exists>c\<in>set cs. x \<in> set (events rt (t = rt) c)) \<or> x = view rt (Elem t a cs)"
    by (auto split: if_splits)
  then show ?case
  proof
    assume "\<exists>c\<in>set cs. x \<in> set (events rt (t = rt) c)"
    then obtain c where c: "c \<in> set cs" and x: "x \<in> set (events rt (t = rt) c)" by blast
    have "wf_elem c" using "1.prems"(1) c by simp
    then show ?thesis using "1.IH" [OF c] x by simp
  next
    assume "x = view rt (Elem t a cs)"
    then have "elem_tag x = t" by simp
    then show ?thesis using "1.prems"(1) by simp
  qed
qed

lemma records_loop_from:
  "r \<in> set (fst (records_loop L ts s e es)) \<Longrightarrow> \<exists>x\<in>set es. from_element L x = Inr r"
proof (induction es)
  case Nil
  then show ?case by simp
next
  case (Cons x xs)
  then show ?case
    by (auto split: if_splits sum.splits prod.splits)
qed

lemma iter_health_records_from:
  assumes "r \<in> set (fst (iter_health_records L root types start end))"
  shows "\<exists>x\<in>set (events (elem_tag root) False root). from_element L x = Inr r"
proof -
  from assms obtain ts s e where
    "r \<in> set (fst (records_loop L ts s e (events (elem_tag root) False root)))"
    by (auto simp: iter_health_records_def Let_def split: if_splits sum.splits)
  then show ?thesis by (rule records_loop_from)
qed

text \<open>
  Claim C5. For every record \<open>r\<close> the reader yields from a document whose element names
  are not empty, whatever the type filter and the time window, rebuilding a record from
  the serialized attribute mapping of \<open>r\<close>, \<open>from_dict (to_dict r)\<close>, raises nothing and gives
  a record that has the tag, the record type and the start and end datetimes of \<open>r\<close>, and
  that serializes to the same mapping.
\<close>

theorem record_round_trip:
  assumes "wf_elem root"
    and "r \<in> set (fst (iter_health_records L root types start end))"
  shows "\<exists>r'. from_dict L (to_dict r) = Inr r' \<and>
              tag r' = tag r \<and>
              record_type r' = record_type r \<and>
              record_start_dt r' = record_start_dt r \<and>
              record_end_dt r' = record_end_dt r \<and>
              to_dict r' = to_dict r"
proof -
  obtain x where x: "x \<in> set (events (elem_tag root) False root)"
    and fx: "from_element L x = Inr r"
    using iter_health_records_from [OF assms(2)] by blast
  have "elem_tag x \<noteq> []" by (rule events_tags [OF assms(1) x])
  then have "from_dict L (to_dict r) = Inr r" using fx by (rule from_element_round_trip)
  then show ?thesis by simp
qed

theorem record_round_trip_witness:
  "wf_elem (Elem ''HealthData'' []
      [Elem ''Workout''
         [(''workoutActivityType'', ''HKWorkoutActivityTypeRunning''),
          (''startDate'', ''2024-03-02 07:30:00 -0800''),
          (''endDate'', ''2024-03-02 08:15:00 -0800'')]
         [Elem ''MetadataEntry'' [(''key'', ''HKTimeZone''), (''value'', ''America/Los_Angeles'')] [],
          Elem ''WorkoutEvent'' [(''type'', ''HKWorkoutEventTypePause'')] []]]) \<and>
   iter_health_records stdlib (Elem ''HealthData'' []
      [Elem ''Workout''
         [(''workoutActivityType'', ''HKWorkoutActivityTypeRunning''),
          (''startDate'', ''2024-03-02 07:30:00 -0800''),
          (''endDate'', ''2024-03-02 08:15:00 -0800'')]
         [Elem ''MetadataEntry'' [(''key'', ''HKTimeZone''), (''value'', ''America/Los_Angeles'')] [],
          Elem ''WorkoutEvent'' [(''type'', ''HKWorkoutEventTypePause'')] []]]) None PNone PNone =
     ([\<lparr>tag = PStr ''Workout'', record_type = PStr ''HKWorkoutActivityTypeRunning'',
        record_start_dt = Some (Aware 1709364600000000 (- 28800000000)),
        record_end_dt = Some (Aware 1709367300000000 (- 28800000000)),
        attributes =
          [(''workoutActivityType'', PStr ''HKWorkoutActivityTypeRunning''),
           (''startDate'', PStr ''2024-03-02 07:30:00 -0800''),
           (''endDate'', PStr ''2024-03-02 08:15:00 -0800''),
           (''HKTimeZone'', PStr ''America/Los_Angeles''),
           (''WorkoutEvent'',
            PList [[(''type'', PStr ''HKWorkoutEventTypePause''), (''_tag'', PStr ''WorkoutEvent'')]]),
           (''_tag'', PStr ''Workout''),
           (''_type'', PStr ''HKWorkoutActivityTypeRunning'')]\<rparr>], None) \<and>
   map_sum id to_dict (from_dict stdlib (to_dict
     \<lparr>tag = PStr ''Workout'', record_type = PStr ''HKWorkoutActivityTypeRunning'',
        record_start_dt = Some (Aware 1709364600000000 (- 28800000000)),
        record_end_dt = Some (Aware 1709367300000000 (- 28800000000)),
        attributes =
          [(''workoutActivityType'', PStr ''HKWorkoutActivityTypeRunning''),
           (''startDate'', PStr ''2024-03-02 07:30:00 -0800''),
           (''endDate'', PStr ''2024-03-02 08:15:00 -0800''),
           (''HKTimeZone'', PStr ''America/Los_Angeles''),
           (''WorkoutEvent'',
            PList [[(''type'', PStr ''HKWorkoutEventTypePause''), (''_tag'', PStr ''WorkoutEvent'')]]),
           (''_tag'', PStr ''Workout''),
           (''_type'', PStr ''HKWorkoutActivityTypeRunning'')]\<rparr>)) =
     Inr [(''workoutActivityType'', PStr ''HKWorkoutActivityTypeRunning''),
           (''startDate'', PStr ''2024-03-02 07:30:00 -0800''),
           (''endDate'', PStr ''2024-03-02 08:15:00 -0800''),
           (''HKTimeZone'', PStr ''America/Los_Angeles''),
           (''WorkoutEvent'',
            PList [[(''type'', PStr ''HKWorkoutEventTypePause''), (''_tag'', PStr ''WorkoutEvent'')]]),
           (''_tag'', PStr ''Workout''),
           (''_type'', PStr ''HKWorkoutActivityTypeRunning'')]"
proof -
  let ?doc = "Elem ''HealthData'' []
      [Elem ''Workout''
         [(''workoutActivityType'', ''HKWorkoutActivityTypeRunning''),
          (''startDate'', ''2024-03-02 07:30:00 -0800''),
          (''endDate'', ''2024-03-02 08:15:00 -0800'')]
         [Elem ''MetadataEntry'' [(''key'', ''HKTimeZone''), (''value'', ''America/Los_Angeles'')] [],
          Elem ''WorkoutEvent'' [(''type'', ''HKWorkoutEventTypePause'')] []]]"
  let ?r = "\<lparr>tag = PStr ''Workout'', record_type = PStr ''HKWorkoutActivityTypeRunning'',
        record_start_dt = Some (Aware 1709364600000000 (- 28800000000)),
        record_end_dt = Some (Aware 1709367300000000 (- 28800000000)),
        attributes =
          [(''workoutActivityType'', PStr ''HKWorkoutActivityTypeRunning''),
           (''startDate'', PStr ''2024-03-02 07:30:00 -0800''),
           (''endDate'', PStr ''2024-03-02 08:15:00 -0800''),
           (''HKTimeZone'', PStr ''America/Los_Angeles''),
           (''WorkoutEvent'',
            PList [[(''type'', PStr ''HKWorkoutEventTypePause''), (''_tag'', PStr ''WorkoutEvent'')]]),
           (''_tag'', PStr ''Workout''),
           (''_type'', PStr ''HKWorkoutActivityTypeRunning'')]\<rparr>"
  have wf: "wf_elem ?doc" by simp
  have it: "iter_health_records stdlib ?doc None PNone PNone = ([?r], None)" by code_simp
  then have mem: "?r \<in> set (fst (iter_health_records stdlib ?doc None PNone PNone))" by simp
  have "map_sum id to_dict (from_dict stdlib (to_dict ?r)) = Inr (to_dict ?r)"
    using record_round_trip [OF wf mem] by auto
  then show ?thesis using wf it by (simp add: to_dict_def)
qed

text \<open>
  Claim C1 at two documents. A Record whose \<open>endDate\<close> (1 January) lies before its
  \<open>startDate\<close> (3 January) is discarded by the time pre-filter for a window starting on
  2 January, while full construction clamps its end to its start and the full filter
  keeps it. A Workout with a \<open>type\<close> attribute \<open>A\<close> and activity type \<open>B\<close> is discarded by
  the type pre-filter for the accepted set \<open>{B}\<close>, while the full filter keeps it for its
  record type \<open>B\<close>.
\<close>

theorem prefilter_discards_kept_record:
  "iter_health_records stdlib
     (Elem ''HealthData'' []
        [Elem ''Record''
           [(''type'', ''HKQuantityTypeIdentifierStepCount''),
            (''startDate'', ''2024-01-03 00:00:00 +0000''),
            (''endDate'', ''2024-01-01 00:00:00 +0000'')] []])
     None (PStr ''2024-01-02 00:00:00 +0000'') PNone = ([], None) \<and>
   spec_iter_health_records stdlib
     (Elem ''HealthData'' []
        [Elem ''Record''
           [(''type'', ''HKQuantityTypeIdentifierStepCount''),
            (''startDate'', ''2024-01-03 00:00:00 +0000''),
            (''endDate'', ''2024-01-01 00:00:00 +0000'')] []])
     None (PStr ''2024-01-02 00:00:00 +0000'') PNone =
     ([\<lparr>tag = PStr ''Record'', record_type = PStr ''HKQuantityTypeIdentifierStepCount'',
        record_start_dt = Some (Aware 1704240000000000 0),
        record_end_dt = Some (Aware 1704240000000000 0),
        attributes =
          [(''type'', PStr ''HKQuantityTypeIdentifierStepCount''),
           (''startDate'', PStr ''2024-01-03 00:00:00 +0000''),
           (''endDate'', PStr ''2024-01-01 00:00:00 +0000''),
           (''_tag'', PStr ''Record''),
           (''_type'', PStr ''HKQuantityTypeIdentifierStepCount'')]\<rparr>], None) \<and>
   iter_health_records stdlib
     (Elem ''HealthData'' []
        [Elem ''Workout'' [(''type'', ''A''), (''workoutActivityType'', ''B'')] []])
     (Some [''B'']) PNone PNone = ([], None) \<and>
   spec_iter_health_records stdlib
     (Elem ''HealthData'' []
        [Elem ''Workout'' [(''type'', ''A''), (''workoutActivityType'', ''B'')] []])
     (Some [''B'']) PNone PNone =
     ([\<lparr>tag = PStr ''Workout'', record_type = PStr ''B'',
        record_start_dt = None, record_end_dt = None,
        attributes =
          [(''type'', PStr ''A''), (''workoutActivityType'', PStr ''B''),
           (''_tag'', PStr ''Workout''), (''_type'', PStr ''B'')]\<rparr>], None)"
  by code_simp

lemma to_datetime_steps:
  "(strip v = [] \<longrightarrow> to_datetime L (PStr v) = None) \<and>
   (strip v \<noteq> [] \<and> last (strip v) \<in> {CHR ''Z'', CHR ''z''} \<longrightarrow>
      to_datetime L (PStr v) = fromisoformat L (butlast (strip v) @ ''+00:00'')) \<and>
   (strip v \<noteq> [] \<and> last (strip v) \<notin> {CHR ''Z'', CHR ''z''} \<longrightarrow>
      to_datetime L (PStr v) =
        first_some
          [strptime L (strip v) ''%Y-%m-%d %H:%M:%S %z'',
           map_option ensure_aware (fromisoformat L (strip v)),
           map_option replace_utc (strptime L (strip v) ''%Y-%m-%d %H:%M:%S''),
           map_option replace_utc (strptime L (strip v) ''%Y-%m-%d'')]) \<and>
   to_datetime L PNone = None \<and>
   to_datetime L (PList l) = None \<and>
   to_datetime L (PDatetime d) = Some (ensure_aware d)"
  by (auto simp: Let_def split: option.splits)

lemma aware_ensure_aware: "aware (ensure_aware d)"
  by (cases d) (simp_all add: aware_def)

lemma aware_replace_utc: "aware (replace_utc d)"
  by (cases d) (simp_all add: aware_def)

text \<open>
  Claim C8 at its failing inputs. For a date with a trailing \<open>Z\<close>, \<open>2024-01-20Z\<close>, the
  first rule hands \<open>2024-01-20+00:00\<close> to \<open>fromisoformat\<close>, which takes \<open>+\<close> for the separator
  after the date and \<open>00:00\<close> for the time of day, and returns a naive datetime;
  \<open>to_datetime\<close> returns it as it is, so the result is not timezone-aware, while the same
  date without the \<open>Z\<close> gives the aware midnight in UTC. A record with that start and an
  aware end cannot be built: comparing the two raises \<open>TypeError\<close>. For the canonical form
  with an unpadded month and the zone \<open>Z\<close>, \<open>2024-1-20 15:30:00 Z\<close>, the first rule fails and
  nothing is returned, although the second form accepts the text. The example of the
  claim holds: \<open>2024-01-20 15:30:00Z\<close> and \<open>2024-01-20T08:30:00-07:00\<close> give aware datetimes
  of the same instant.
\<close>

theorem to_datetime_zulu_date_naive:
  "to_datetime stdlib (PStr ''2024-01-20Z'') = Some (Naive 1705708800000000) \<and>
   to_datetime stdlib (PStr ''2024-01-20'') = Some (Aware 1705708800000000 0) \<and>
   from_element stdlib
     (Elem ''Record'' [(''startDate'', ''2024-01-20Z''),
                       (''endDate'', ''2024-01-20 10:00:00 +0000'')] []) =
     Inl TypeError_naive_aware \<and>
   to_datetime stdlib (PStr ''2024-1-20 15:30:00 Z'') = None \<and>
   strptime stdlib ''2024-1-20 15:30:00 Z'' ''%Y-%m-%d %H:%M:%S %z'' =
     Some (Aware 1705764600000000 0) \<and>
   to_datetime stdlib (PStr ''2024-01-20 15:30:00Z'') = Some (Aware 1705764600000000 0) \<and>
   to_datetime stdlib (PStr ''2024-01-20T08:30:00-07:00'') =
     Some (Aware 1705739400000000 (- 25200000000)) \<and>
   instant (Aware 1705764600000000 0) = instant (Aware 1705739400000000 (- 25200000000))"
  by code_simp

section \<open>Reads without a filter\<close>

text \<open>
  Where no pre-filter discards, the loop of the reader is the loop of the full filters;
  and on a document in which no element below the root carries the root's tag, a read
  without type filter and without window yields what full construction of every top-level
  child yields.
\<close>

lemma view_id: "\<not> mentions rt e \<Longrightarrow> view rt e = e"
proof (induction rt e rule: view.induct)
  case (1 rt t a cs)
  then have "map (view rt) cs = cs" by (intro map_idI) auto
  then show ?case using "1.prems" by simp
qed

lemma events_plain:
  "\<not> mentions rt e \<Longrightarrow> events rt inside e = (if inside then [e] else [])"
proof (induction rt inside e rule: events.induct)
  case (1 rt inside t a cs)
  have ne: "t \<noteq> rt" and cs: "\<forall>c\<in>set cs. \<not> mentions rt c" using "1.prems" by auto
  have "\<forall>c\<in>set cs. events rt (t = rt) c = []" using "1.IH" cs ne by simp
  then have "concat (map (events rt (t = rt)) cs) = []" by simp
  moreover have "view rt (Elem t a cs) = Elem t a cs" by (rule view_id [OF "1.prems"])
  ultimately show ?case by simp
qed

lemma events_flat:
  assumes "\<forall>c\<in>set (elem_children root). \<not> mentions (elem_tag root) c"
  shows "events (elem_tag root) False root = elem_children root"
proof (cases root)
  case (Elem t a cs)
  have "\<forall>c\<in>set cs. events t True c = [c]" using assms Elem by (simp add: events_plain)
  then have "concat (map (events t True) cs) = cs" by (induction cs) simp_all
  then show ?thesis using Elem by simp
qed

lemma records_loop_no_prefilter:
  "\<forall>e\<in>set es. \<not> type_prefilter ts e \<and> time_prefilter L s en e = Inr False \<Longrightarrow>
   records_loop L ts s en es = full_filter_loop L ts s en es"
  by (induction es) (auto split: sum.splits prod.splits)

lemma type_prefilter_None: "type_prefilter None e = False"
  by (simp add: type_prefilter_def)

lemma time_prefilter_None: "time_prefilter L None None e = Inr False"
  by (simp add: time_prefilter_def)

lemma unfiltered_read:
  assumes "\<forall>c\<in>set (elem_children root). \<not> mentions (elem_tag root) c"
  shows "iter_health_records L root None PNone PNone =
         spec_iter_health_records L root None PNone PNone"
  using assms
  by (simp add: iter_health_records_def spec_iter_health_records_def events_flat
      records_loop_no_prefilter type_prefilter_None time_prefilter_None)

end
